theory Spec2Isabelle
  imports Main "HOL-Library.Word" "HOL-Library.Char_ord" "HOL-Library.List_Lexorder"
begin

section \<open>Session warnings (sql/session.go)\<close>

text \<open>
  A warning is handled through a pointer \<^verbatim>\<open>*Warning\<close>; \<open>None\<close> is the nil pointer,
  which is also what \<^verbatim>\<open>make([]*Warning, n)\<close> fills a fresh slice with.
\<close>

record Warning =
  Level :: string
  Code :: int
  Message :: string

type_synonym WarningPtr = "Warning option"

text \<open>
  The fields of \<^verbatim>\<open>BaseSession\<close> that the warning operations read or write, with the
  plain string fields beside them. \<^verbatim>\<open>warncnt\<close> is a \<^verbatim>\<open>uint16\<close>. The mutex is not
  modelled: every operation below holds it from entry to exit, so each one is an atomic
  step on the session state.
\<close>

record BaseSession =
  addr :: string
  currentDB :: string
  warnings :: "WarningPtr list"
  warncnt :: "16 word"
  queriedDb :: string

definition NewBaseSession :: BaseSession where
  "NewBaseSession =
     \<lparr>addr = [], currentDB = [], warnings = [], warncnt = 0, queriedDb = []\<rparr>"

definition Warn :: "WarningPtr \<Rightarrow> BaseSession \<Rightarrow> BaseSession" where
  "Warn warn s = s\<lparr>warnings := warnings s @ [warn]\<rparr>"

text \<open>
  The copying loop of \<^verbatim>\<open>Warnings\<close>:
  \<^verbatim>\<open>for i := 0; i < n; i++ { warns[i] = s.warnings[n-i-1] }\<close>.
  The index \<open>n - i - 1\<close> is in range whenever \<open>i < n\<close>, so the read never panics.
\<close>

function Warnings_loop ::
  "WarningPtr list \<Rightarrow> nat \<Rightarrow> nat \<Rightarrow> WarningPtr list \<Rightarrow> WarningPtr list" where
  "Warnings_loop ws n i warns =
     (if i < n then Warnings_loop ws n (Suc i) (warns[i := ws ! (n - i - 1)]) else warns)"
  by pat_completeness auto
termination
  by (relation "measure (\<lambda>(ws, n, i, warns). n - i)") auto

declare Warnings_loop.simps [simp del]

definition Warnings :: "BaseSession \<Rightarrow> WarningPtr list" where
  "Warnings s =
     (let n = length (warnings s);
          warns = replicate n None
      in Warnings_loop (warnings s) n 0 warns)"

text \<open>
  \<^verbatim>\<open>uint16(len(s.warnings))\<close> keeps the low 16 bits of the length. Truncating a nil
  slice and truncating a non-nil one both leave a slice of length 0, so the nil test of
  the source does not show in the list model.
\<close>

definition ClearWarnings :: "BaseSession \<Rightarrow> BaseSession" where
  "ClearWarnings s =
     (let cnt = (of_nat (length (warnings s)) :: 16 word)
      in if warncnt s = cnt
         then s\<lparr>warnings := [], warncnt := 0\<rparr>
         else s\<lparr>warncnt := cnt\<rparr>)"

definition WarningCount :: "BaseSession \<Rightarrow> 16 word" where
  "WarningCount s = of_nat (length (warnings s))"

section \<open>Procedure cache (analyzer: ProcedureCache)\<close>

text \<open>
  \<^verbatim>\<open>strings.ToLower\<close> belongs to the Go standard library: it maps every Unicode letter
  of a string to its lower case. The cache applies it to names and relies on nothing
  else about it, so it is an argument, \<open>ToLower\<close>, of \<open>Register\<close>, \<open>Get\<close> and
  \<open>AllForDatabase\<close> below, and what a statement needs of it is a hypothesis of that
  statement.

  The examples need one such function to run on. \<open>asciiToLower\<close> is what
  \<^verbatim>\<open>strings.ToLower\<close> does on a string of ASCII bytes: each byte \<open>'A'..'Z'\<close> is moved to
  \<open>'a'..'z'\<close> and every other byte is kept. It stands for \<^verbatim>\<open>strings.ToLower\<close> in the
  examples only, all of which use ASCII names.
\<close>

definition asciiToLowerByte :: "char \<Rightarrow> char" where
  "asciiToLowerByte c =
     (let n = (of_char c :: nat)
      in if 65 \<le> n \<and> n \<le> 90 then char_of (n + 32) else c)"

definition asciiToLower :: "string \<Rightarrow> string" where
  "asciiToLower s = map asciiToLowerByte s"

text \<open>
  Modelled from the spec: \<^verbatim>\<open>plan.Procedure\<close> and its method
  \<^verbatim>\<open>HasVariadicParameter\<close> are declared in the \<^verbatim>\<open>plan\<close> package, outside the files at
  hand. The cache reads the procedure's \<^verbatim>\<open>Name\<close>, the length of its \<^verbatim>\<open>Params\<close>, and
  whether it "accepts a variadic tail": its last declared parameter is variadic.
\<close>

record ProcedureParam =
  ParamName :: string
  Variadic :: bool

record Procedure =
  Name :: string
  Params :: "ProcedureParam list"

definition HasVariadicParameter :: "Procedure \<Rightarrow> bool" where
  "HasVariadicParameter p = (Params p \<noteq> [] \<and> Variadic (last (Params p)))"

text \<open>\<^verbatim>\<open>math.MaxInt\<close> where \<^verbatim>\<open>int\<close> has 64 bits.\<close>

definition MaxInt :: int where
  "MaxInt = 2 ^ 63 - 1"

text \<open>
  The arity under which a procedure is filed, computed the same way in \<^verbatim>\<open>Register\<close>
  and in the scan of \<^verbatim>\<open>Get\<close>:
  \<^verbatim>\<open>paramLen := len(procedure.Params); if procedure.HasVariadicParameter() { paramLen = math.MaxInt }\<close>.
\<close>

definition paramLen :: "Procedure \<Rightarrow> int" where
  "paramLen procedure =
     (if HasVariadicParameter procedure then MaxInt else int (length (Params procedure)))"

text \<open>
  \<^verbatim>\<open>map[string]map[string]map[int]*plan.Procedure\<close>. The read/write mutex is held for
  the whole of each operation and is not modelled.
\<close>

record ProcedureCache =
  dbToProcedureMap :: "string \<rightharpoonup> (string \<rightharpoonup> (int \<rightharpoonup> Procedure))"

definition NewProcedureCache :: ProcedureCache where
  "NewProcedureCache = \<lparr>dbToProcedureMap = Map.empty\<rparr>"

text \<open>
  \<^verbatim>\<open>Register\<close> always returns a nil error, so the model returns the updated cache only.
  The database name indexes the outer map as given; only the procedure name is
  lowercased.
\<close>

definition Register ::
  "(string \<Rightarrow> string) \<Rightarrow> string \<Rightarrow> Procedure \<Rightarrow> ProcedureCache \<Rightarrow> ProcedureCache" where
  "Register ToLower dbName procedure pc =
     (let name = ToLower (Name procedure);
          procMap = (case dbToProcedureMap pc dbName of
                       None \<Rightarrow> Map.empty | Some pm \<Rightarrow> pm);
          procedures = (case procMap name of
                          None \<Rightarrow> Map.empty | Some ps \<Rightarrow> ps)
      in pc\<lparr>dbToProcedureMap :=
             (dbToProcedureMap pc)
               (dbName \<mapsto> procMap(name \<mapsto> procedures(paramLen procedure \<mapsto> procedure)))\<rparr>)"

text \<open>
  The fallback scan of \<^verbatim>\<open>Get\<close>: \<^verbatim>\<open>for _, procedure := range procedures\<close>. Go leaves the
  order in which \<^verbatim>\<open>range\<close> visits a map unspecified, so the order of this run is an
  argument: the list of keys as the loop meets them. A key of the list that the map does
  not hold contributes no iteration.
\<close>

fun Get_scan ::
  "(int \<rightharpoonup> Procedure) \<Rightarrow> int list \<Rightarrow> Procedure option \<Rightarrow> int \<Rightarrow> Procedure option" where
  "Get_scan procedures [] largestParamProc largestParamLen = largestParamProc"
| "Get_scan procedures (k # ks) largestParamProc largestParamLen =
     (case procedures k of
        None \<Rightarrow> Get_scan procedures ks largestParamProc largestParamLen
      | Some procedure \<Rightarrow>
          (if largestParamProc = None \<or> largestParamLen < paramLen procedure
           then Get_scan procedures ks (Some procedure) (paramLen procedure)
           else Get_scan procedures ks largestParamProc largestParamLen))"

text \<open>\<open>None\<close> is the nil procedure that \<^verbatim>\<open>Get\<close> returns when nothing is found.\<close>

definition Get ::
  "(string \<Rightarrow> string) \<Rightarrow> ProcedureCache \<Rightarrow> string \<Rightarrow> string \<Rightarrow> int \<Rightarrow> int list
     \<Rightarrow> Procedure option" where
  "Get ToLower pc dbName procedureName numOfParams rangeOrder =
     (case dbToProcedureMap pc (ToLower dbName) of
        None \<Rightarrow> None
      | Some procMap \<Rightarrow>
          (case procMap (ToLower procedureName) of
             None \<Rightarrow> None
           | Some procedures \<Rightarrow>
               (case procedures numOfParams of
                  Some procedure \<Rightarrow> Some procedure
                | None \<Rightarrow> Get_scan procedures rangeOrder None 0)))"

text \<open>
  The comparison handed to \<^verbatim>\<open>sort.Slice\<close> in \<^verbatim>\<open>AllForDatabase\<close>: by \<^verbatim>\<open>Name\<close> (Go
  compares strings byte by byte), then by \<^verbatim>\<open>len(Params)\<close>.
\<close>

definition procedure_less :: "Procedure \<Rightarrow> Procedure \<Rightarrow> bool" where
  "procedure_less p q =
     (if Name p \<noteq> Name q then Name p < Name q
      else length (Params p) < length (Params q))"

text \<open>
  \<^verbatim>\<open>sort.Slice\<close> of the Go standard library promises a permutation of the slice that is
  ordered by the given comparison, and no stability. It is modelled by insertion sort
  with that comparison.
\<close>

fun sort_insert :: "('a \<Rightarrow> 'a \<Rightarrow> bool) \<Rightarrow> 'a \<Rightarrow> 'a list \<Rightarrow> 'a list" where
  "sort_insert lt x [] = [x]"
| "sort_insert lt x (y # ys) =
     (if lt y x then y # sort_insert lt x ys else x # y # ys)"

fun sort_Slice :: "('a \<Rightarrow> 'a \<Rightarrow> bool) \<Rightarrow> 'a list \<Rightarrow> 'a list" where
  "sort_Slice lt [] = []"
| "sort_Slice lt (x # xs) = sort_insert lt x (sort_Slice lt xs)"

text \<open>
  The two nested \<^verbatim>\<open>range\<close> loops of \<^verbatim>\<open>AllForDatabase\<close> append every procedure of every
  name. Their visiting orders are arguments, as in \<open>Get_scan\<close>: the order of the names,
  and for each name the order of its arities.
\<close>

definition collect_procedures ::
  "(string \<rightharpoonup> (int \<rightharpoonup> Procedure)) \<Rightarrow> string list \<Rightarrow> (string \<Rightarrow> int list) \<Rightarrow> Procedure list" where
  "collect_procedures procMap nameOrder arityOrder =
     concat (map (\<lambda>n. case procMap n of
                         None \<Rightarrow> []
                       | Some procedures \<Rightarrow> List.map_filter procedures (arityOrder n))
                 nameOrder)"

definition AllForDatabase ::
  "(string \<Rightarrow> string) \<Rightarrow> ProcedureCache \<Rightarrow> string \<Rightarrow> string list \<Rightarrow> (string \<Rightarrow> int list)
     \<Rightarrow> Procedure list" where
  "AllForDatabase ToLower pc dbName nameOrder arityOrder =
     (case dbToProcedureMap pc (ToLower dbName) of
        None \<Rightarrow> []
      | Some procMap \<Rightarrow>
          sort_Slice procedure_less (collect_procedures procMap nameOrder arityOrder))"

text \<open>
  "Sorted ascending by (name, parameter count)": the order that \<open>procedure_less\<close>
  induces, written out on the two keys.
\<close>

definition name_count_le :: "Procedure \<Rightarrow> Procedure \<Rightarrow> bool" where
  "name_count_le p q =
     (Name p < Name q \<or> (Name p = Name q \<and> length (Params p) \<le> length (Params q)))"

text \<open>
  The procedures of the concrete scenario: \<open>foo\<close> with two fixed parameters, and \<open>foo\<close>
  with one fixed parameter and a variadic tail; and two more for listings.
\<close>

definition foo_fixed :: Procedure where
  "foo_fixed = \<lparr>Name = ''foo'',
     Params = [\<lparr>ParamName = ''a'', Variadic = False\<rparr>, \<lparr>ParamName = ''b'', Variadic = False\<rparr>]\<rparr>"

definition foo_variadic :: Procedure where
  "foo_variadic = \<lparr>Name = ''foo'',
     Params = [\<lparr>ParamName = ''a'', Variadic = False\<rparr>, \<lparr>ParamName = ''rest'', Variadic = True\<rparr>]\<rparr>"

definition foo_one :: Procedure where
  "foo_one = \<lparr>Name = ''foo'', Params = [\<lparr>ParamName = ''a'', Variadic = False\<rparr>]\<rparr>"

definition bar_one :: Procedure where
  "bar_one = \<lparr>Name = ''Bar'', Params = [\<lparr>ParamName = ''x'', Variadic = False\<rparr>]\<rparr>"

section \<open>Update execution (sql/plan/update.go)\<close>

text \<open>
  A value of type \<^verbatim>\<open>interface{}\<close>: its dynamic type is either \<^verbatim>\<open>sql.Row\<close>, itself a slice
  of such values, or something else. The type assertion \<^verbatim>\<open>val.(sql.Row)\<close> succeeds on
  \<open>RowVal\<close> only.
\<close>

datatype val = NullVal | IntVal int | StrVal string | RowVal "val list"

type_synonym Row = "val list"

type_synonym Schema = "string list"

text \<open>
  Errors are values. \<open>EOF\<close> is \<^verbatim>\<open>io.EOF\<close>, which a row iterator returns at its end;
  \<open>ErrUpdateUnexpectedSetResult\<close> carries the value that was not a row; \<open>Failure\<close>
  stands for any other error, told apart by its text.
\<close>

datatype error = EOF | ErrUpdateUnexpectedSetResult val | Failure string

text \<open>
  An update expression is used through \<^verbatim>\<open>Eval(ctx, row)\<close> only, which returns a value or
  an error; the context is the same in every call of one run.
\<close>

type_synonym Expression = "Row \<Rightarrow> error + val"

text \<open>
  \<^verbatim>\<open>applyUpdateExpressions\<close>: the loop over \<^verbatim>\<open>updateExprs\<close> with the running row
  \<^verbatim>\<open>prev\<close>, here the second argument.
\<close>

fun applyUpdateExpressions :: "Expression list \<Rightarrow> Row \<Rightarrow> error + Row" where
  "applyUpdateExpressions [] prev = Inr prev"
| "applyUpdateExpressions (updateExpr # updateExprs) prev =
     (case updateExpr prev of
        Inl err \<Rightarrow> Inl err
      | Inr v \<Rightarrow>
          (case v of
             RowVal r \<Rightarrow> applyUpdateExpressions updateExprs r
           | _ \<Rightarrow> Inl (ErrUpdateUnexpectedSetResult v)))"

text \<open>
  In the claim's words: the expressions \<open>es\<close> are evaluated in order, each on the row
  the one before it produced, starting from \<open>row\<close>, and each evaluates without error
  to a row; \<open>rs\<close> lists those rows.
\<close>

fun feeds :: "Expression list \<Rightarrow> Row \<Rightarrow> Row list \<Rightarrow> bool" where
  "feeds [] row rs = (rs = [])"
| "feeds (e # es) row [] = False"
| "feeds (e # es) row (r # rs) = (e row = Inr (RowVal r) \<and> feeds es r rs)"

fun is_row :: "val \<Rightarrow> bool" where
  "is_row (RowVal r) = True"
| "is_row v = False"

text \<open>Four expressions to run the transform on.\<close>

definition append_one :: Expression where
  "append_one row = Inr (RowVal (row @ [IntVal 1]))"

definition yield_scalar :: Expression where
  "yield_scalar row = Inr (IntVal 7)"

definition failing :: Expression where
  "failing row = Inl (Failure ''boom'')"

definition failing_mismatch :: Expression where
  "failing_mismatch row = Inl (ErrUpdateUnexpectedSetResult NullVal)"

text \<open>
  The update iterator works on three collaborators it is given: the child iterator
  (\<^verbatim>\<open>sql.RowIter\<close>), the row updater (\<^verbatim>\<open>sql.RowUpdater\<close>) and the schema-aware equality
  of rows (\<^verbatim>\<open>Row.Equals\<close>). Their code is not part of the iterator, so they are
  arguments: each method maps the collaborator's state to its result and next state.
\<close>

record ('c, 'u) collaborators =
  child_Next :: "'c \<Rightarrow> (error + Row) \<times> 'c"
  child_Close :: "'c \<Rightarrow> error option \<times> 'c"
  updater_Update :: "'u \<Rightarrow> Row \<Rightarrow> Row \<Rightarrow> error option \<times> 'u"
  updater_Close :: "'u \<Rightarrow> error option \<times> 'u"
  Equals :: "Row \<Rightarrow> Row \<Rightarrow> Schema \<Rightarrow> error + bool"

text \<open>The calls an operation makes on its collaborators, in the order it makes them.\<close>

datatype call =
    CallChildNext
  | CallEquals Row Row
  | CallUpdate Row Row
  | CallUpdaterClose
  | CallChildClose

record ('c, 'u) updateIter =
  childIter :: 'c
  schema :: Schema
  updater :: 'u
  closed :: bool

definition newUpdateIter :: "'c \<Rightarrow> Schema \<Rightarrow> 'u \<Rightarrow> ('c, 'u) updateIter" where
  "newUpdateIter c sch upd = \<lparr>childIter = c, schema = sch, updater = upd, closed = False\<rparr>"

text \<open>
  \<^verbatim>\<open>updateIter.Next\<close> returns the row or the error, the iterator after the call, and the
  calls made. The two halves are \<^verbatim>\<open>oldAndNewRow[:len/2]\<close> and \<^verbatim>\<open>oldAndNewRow[len/2:]\<close>.
\<close>

definition updateIter_Next ::
  "('c, 'u) collaborators \<Rightarrow> ('c, 'u) updateIter
     \<Rightarrow> (error + Row) \<times> ('c, 'u) updateIter \<times> call list" where
  "updateIter_Next env u =
     (case child_Next env (childIter u) of
        (Inl err, c') \<Rightarrow> (Inl err, u\<lparr>childIter := c'\<rparr>, [CallChildNext])
      | (Inr oldAndNewRow, c') \<Rightarrow>
          (let oldRow = take (length oldAndNewRow div 2) oldAndNewRow;
               newRow = drop (length oldAndNewRow div 2) oldAndNewRow;
               u1 = u\<lparr>childIter := c'\<rparr>
           in case Equals env oldRow newRow (schema u) of
                Inl err \<Rightarrow> (Inl err, u1, [CallChildNext, CallEquals oldRow newRow])
              | Inr equals \<Rightarrow>
                  (if \<not> equals
                   then (case updater_Update env (updater u1) oldRow newRow of
                           (Some err, upd') \<Rightarrow>
                             (Inl err, u1\<lparr>updater := upd'\<rparr>,
                              [CallChildNext, CallEquals oldRow newRow, CallUpdate oldRow newRow])
                         | (None, upd') \<Rightarrow>
                             (Inr oldAndNewRow, u1\<lparr>updater := upd'\<rparr>,
                              [CallChildNext, CallEquals oldRow newRow, CallUpdate oldRow newRow]))
                   else (Inr oldAndNewRow, u1, [CallChildNext, CallEquals oldRow newRow]))))"

text \<open>
  \<^verbatim>\<open>updateIter.Close\<close> returns the error or nil (\<open>None\<close>), the iterator after the call,
  and the calls made.
\<close>

definition updateIter_Close ::
  "('c, 'u) collaborators \<Rightarrow> ('c, 'u) updateIter
     \<Rightarrow> error option \<times> ('c, 'u) updateIter \<times> call list" where
  "updateIter_Close env u =
     (if \<not> closed u
      then (let u1 = u\<lparr>closed := True\<rparr>
            in case updater_Close env (updater u1) of
                 (Some err, upd') \<Rightarrow> (Some err, u1\<lparr>updater := upd'\<rparr>, [CallUpdaterClose])
               | (None, upd') \<Rightarrow>
                   (case child_Close env (childIter u1) of
                      (res, c') \<Rightarrow>
                        (res, u1\<lparr>updater := upd', childIter := c'\<rparr>,
                         [CallUpdaterClose, CallChildClose])))
      else (None, u, []))"

text \<open>
  Collaborators to run the iterator on. The child iterator yields a fixed list of
  results and then \<open>EOF\<close>; its \<^verbatim>\<open>Close\<close> fails when asked to. The updater counts the
  updates it received; its \<^verbatim>\<open>Update\<close> and \<^verbatim>\<open>Close\<close> fail when asked to. Rows are equal
  when they are the same list of values.
\<close>

definition scripted ::
  "error option \<Rightarrow> error option \<Rightarrow> error option \<Rightarrow> ((error + Row) list, nat) collaborators" where
  "scripted update_err updater_close_err child_close_err =
     \<lparr>child_Next = (\<lambda>c. case c of [] \<Rightarrow> (Inl EOF, []) | x # xs \<Rightarrow> (x, xs)),
      child_Close = (\<lambda>c. (child_close_err, c)),
      updater_Update = (\<lambda>n old new. (update_err, Suc n)),
      updater_Close = (\<lambda>n. (updater_close_err, n)),
      Equals = (\<lambda>a b sch. Inr (a = b))\<rparr>"

text \<open>The \<^verbatim>\<open>Update(old, new)\<close> calls among a list of calls, with their arguments.\<close>

fun updates_in :: "call list \<Rightarrow> (Row \<times> Row) list" where
  "updates_in [] = []"
| "updates_in (CallUpdate old new # cs) = (old, new) # updates_in cs"
| "updates_in (c # cs) = updates_in cs"

section \<open>Tracing row iterator (sql/session.go: NewSpanIter)\<close>

text \<open>
  A tracer is the no-op tracer (\<^verbatim>\<open>opentracing.NoopTracer{}\<close>) or some other tracer; the
  test \<^verbatim>\<open>span.Tracer() == opentracing.NoopTracer{}\<close> compares dynamic type and value,
  which is equality of this datatype. A span is read through \<^verbatim>\<open>Tracer()\<close> only.
\<close>

datatype Tracer = NoopTracer | OtherTracer string

record Span =
  Tracer :: Tracer
  operationName :: string

text \<open>
  A row iterator is a \<^verbatim>\<open>spanIter\<close> with its seven fields (the three durations in
  nanoseconds), or any other iterator, given by the results it will yield. The fields
  \<^verbatim>\<open>max\<close>, \<^verbatim>\<open>min\<close> and \<^verbatim>\<open>done\<close> carry a suffix, their names being taken.
\<close>

datatype RowIter =
    OtherIter "(error + Row) list"
  | SpanIter (span: Span) (iter: RowIter) (count: int) (max_d: int) (min_d: int)
      (total: int) (done_flag: bool)

text \<open>
  \<^verbatim>\<open>&spanIter{span: span, iter: iter}\<close> leaves the other fields at their zero values.
\<close>

definition NewSpanIter :: "Span \<Rightarrow> RowIter \<Rightarrow> RowIter" where
  "NewSpanIter sp it =
     (if Tracer sp = NoopTracer then it else SpanIter sp it 0 0 0 0 False)"

section \<open>Warnings: helper facts\<close>

lemma Warn_funpow_warnings:
  "warnings ((Warn w ^^ n) s) = warnings s @ replicate n w"
proof (induction n)
  case 0
  show ?case by simp
next
  case (Suc n)
  have "replicate n w @ [w] = w # replicate n w"
    by (simp add: replicate_append_same)
  with Suc show ?case by (simp add: Warn_def)
qed

lemma Warn_funpow_warncnt: "warncnt ((Warn w ^^ n) s) = warncnt s"
  by (induction n) (simp_all add: Warn_def)

lemma unat_of_nat_16: "unat (of_nat n :: 16 word) = n mod 65536"
  by (simp add: unat_of_nat)

lemma Warnings_loop_length: "length (Warnings_loop ws n i warns) = length warns"
  by (induction ws n i warns rule: Warnings_loop.induct)
     (subst Warnings_loop.simps, simp)

lemma Warnings_loop_nth:
  "length warns = n \<Longrightarrow> length ws = n \<Longrightarrow> k < n \<Longrightarrow>
   Warnings_loop ws n i warns ! k = (if i \<le> k then ws ! (n - k - 1) else warns ! k)"
proof (induction ws n i warns rule: Warnings_loop.induct)
  case (1 ws n i warns)
  show ?case
  proof (cases "i < n")
    case True
    have "Warnings_loop ws n i warns ! k
          = Warnings_loop ws n (Suc i) (warns[i := ws ! (n - i - 1)]) ! k"
      using True by (subst Warnings_loop.simps) simp
    also have "\<dots> = (if Suc i \<le> k then ws ! (n - k - 1)
                     else (warns[i := ws ! (n - i - 1)]) ! k)"
      using "1.IH" [OF True] "1.prems" by simp
    also have "\<dots> = (if i \<le> k then ws ! (n - k - 1) else warns ! k)"
    proof (cases "i = k")
      case True
      then show ?thesis using "1.prems" by simp
    next
      case False
      then show ?thesis by (auto simp: nth_list_update)
    qed
    finally show ?thesis .
  next
    case False
    then show ?thesis
      using "1.prems" by (subst Warnings_loop.simps) simp
  qed
qed

lemma Warnings_rev: "Warnings s = rev (warnings s)"
proof (rule nth_equalityI)
  show "length (Warnings s) = length (rev (warnings s))"
    by (simp add: Warnings_def Let_def Warnings_loop_length)
next
  fix k assume "k < length (Warnings s)"
  then have k: "k < length (warnings s)"
    by (simp add: Warnings_def Let_def Warnings_loop_length)
  then show "Warnings s ! k = rev (warnings s) ! k"
    by (simp add: Warnings_def Let_def Warnings_loop_nth rev_nth)
qed

lemma ClearWarnings_ack_invariant:
  "warncnt (ClearWarnings s) = of_nat (length (warnings (ClearWarnings s)))"
  by (simp add: ClearWarnings_def Let_def)

lemma ClearWarnings_after_Warn:
  assumes "warncnt t = of_nat (length (warnings t))"
  shows "warnings (ClearWarnings (Warn w t)) = warnings t @ [w]"
proof -
  have "warncnt (Warn w t) \<noteq> of_nat (length (warnings (Warn w t)))"
    using assms by (simp add: Warn_def)
  then show ?thesis
    by (simp add: ClearWarnings_def Let_def Warn_def)
qed

section \<open>Procedure cache: helper facts\<close>

lemma asciiToLowerByte_idem: "asciiToLowerByte (asciiToLowerByte c) = asciiToLowerByte c"
  by (simp add: asciiToLowerByte_def Let_def)

lemma asciiToLower_idem: "asciiToLower (asciiToLower s) = asciiToLower s"
  by (simp add: asciiToLower_def asciiToLowerByte_idem)

lemma Get_scan_Some:
  "\<exists>p. Get_scan procedures ks (Some a) (paramLen a) = Some p \<and>
       (p = a \<or> (\<exists>k\<in>set ks. procedures k = Some p)) \<and>
       paramLen a \<le> paramLen p \<and>
       (\<forall>k\<in>set ks. \<forall>q. procedures k = Some q \<longrightarrow> paramLen q \<le> paramLen p)"
proof (induction ks arbitrary: a)
  case Nil
  show ?case by simp
next
  case (Cons k ks)
  show ?case
  proof (cases "procedures k")
    case None
    with Cons.IH [of a] show ?thesis by auto
  next
    case (Some q)
    show ?thesis
    proof (cases "paramLen a < paramLen q")
      case True
      from Cons.IH [of q] obtain p where
        p: "Get_scan procedures ks (Some q) (paramLen q) = Some p"
           "p = q \<or> (\<exists>k\<in>set ks. procedures k = Some p)"
           "paramLen q \<le> paramLen p"
           "\<forall>k\<in>set ks. \<forall>r. procedures k = Some r \<longrightarrow> paramLen r \<le> paramLen p"
        by blast
      have "Get_scan procedures (k # ks) (Some a) (paramLen a) = Some p"
        using Some True p(1) by simp
      moreover have "p = a \<or> (\<exists>k'\<in>set (k # ks). procedures k' = Some p)"
        using p(2) Some by auto
      moreover have "paramLen a \<le> paramLen p"
        using True p(3) by simp
      moreover have "\<forall>k'\<in>set (k # ks). \<forall>r. procedures k' = Some r \<longrightarrow> paramLen r \<le> paramLen p"
        using p(3,4) Some by auto
      ultimately show ?thesis by blast
    next
      case False
      from Cons.IH [of a] obtain p where
        p: "Get_scan procedures ks (Some a) (paramLen a) = Some p"
           "p = a \<or> (\<exists>k\<in>set ks. procedures k = Some p)"
           "paramLen a \<le> paramLen p"
           "\<forall>k\<in>set ks. \<forall>r. procedures k = Some r \<longrightarrow> paramLen r \<le> paramLen p"
        by blast
      have "Get_scan procedures (k # ks) (Some a) (paramLen a) = Some p"
        using Some False p(1) by simp
      moreover have "p = a \<or> (\<exists>k'\<in>set (k # ks). procedures k' = Some p)"
        using p(2) by auto
      moreover have "\<forall>k'\<in>set (k # ks). \<forall>r. procedures k' = Some r \<longrightarrow> paramLen r \<le> paramLen p"
        using p(3,4) Some False by auto
      ultimately show ?thesis using p(3) by blast
    qed
  qed
qed

lemma Get_scan_empty:
  "\<forall>k\<in>set ks. procedures k = None \<Longrightarrow> Get_scan procedures ks acc l = acc"
  by (induction ks) simp_all

lemma Get_scan_None:
  "\<exists>k\<in>set ks. procedures k \<noteq> None \<Longrightarrow>
   \<exists>p. Get_scan procedures ks None l = Some p \<and>
       (\<exists>k\<in>set ks. procedures k = Some p) \<and>
       (\<forall>k\<in>set ks. \<forall>q. procedures k = Some q \<longrightarrow> paramLen q \<le> paramLen p)"
proof (induction ks)
  case Nil
  then show ?case by simp
next
  case (Cons k ks)
  show ?case
  proof (cases "procedures k")
    case None
    with Cons.prems have "\<exists>k\<in>set ks. procedures k \<noteq> None" by auto
    from Cons.IH [OF this] None show ?thesis by auto
  next
    case (Some q)
    from Get_scan_Some [of procedures ks q] obtain p where
      p: "Get_scan procedures ks (Some q) (paramLen q) = Some p"
         "p = q \<or> (\<exists>k\<in>set ks. procedures k = Some p)"
         "paramLen q \<le> paramLen p"
         "\<forall>k\<in>set ks. \<forall>r. procedures k = Some r \<longrightarrow> paramLen r \<le> paramLen p"
      by blast
    have "Get_scan procedures (k # ks) None l = Some p"
      using Some p(1) by simp
    moreover have "\<exists>k'\<in>set (k # ks). procedures k' = Some p"
      using p(2) Some by auto
    moreover have "\<forall>k'\<in>set (k # ks). \<forall>r. procedures k' = Some r \<longrightarrow> paramLen r \<le> paramLen p"
      using p(3,4) Some by auto
    ultimately show ?thesis by blast
  qed
qed

lemma Get_scan_greatest:
  assumes "set ks = dom procedures" and "procedures \<noteq> Map.empty"
  shows "\<exists>p. Get_scan procedures ks None l = Some p \<and> p \<in> ran procedures \<and>
             (\<forall>q\<in>ran procedures. paramLen q \<le> paramLen p)"
proof -
  from assms(2) obtain k v where "procedures k = Some v"
    by (metis not_None_eq ext)
  with assms(1) have "\<exists>k\<in>set ks. procedures k \<noteq> None" by auto
  from Get_scan_None [OF this, of l] obtain p where
    p: "Get_scan procedures ks None l = Some p"
       "\<exists>k\<in>set ks. procedures k = Some p"
       "\<forall>k\<in>set ks. \<forall>q. procedures k = Some q \<longrightarrow> paramLen q \<le> paramLen p"
    by blast
  have "p \<in> ran procedures" using p(2) by (auto simp: ran_def)
  moreover have "\<forall>q\<in>ran procedures. paramLen q \<le> paramLen p"
    using p(3) assms(1) by (auto simp: ran_def)
  ultimately show ?thesis using p(1) by blast
qed

lemma Get_lowercases:
  assumes "\<forall>s. ToLower (ToLower s) = ToLower s"
  shows "Get ToLower pc dbName procedureName numOfParams rangeOrder
   = Get ToLower pc (ToLower dbName) (ToLower procedureName) numOfParams rangeOrder"
  using assms by (simp add: Get_def split: option.splits)






lemma paramLen_fixtures:
  "paramLen foo_fixed = 2" "paramLen foo_variadic = MaxInt" "paramLen foo_one = 1"
  "paramLen bar_one = 1"
  by (simp_all add: paramLen_def HasVariadicParameter_def foo_fixed_def foo_variadic_def
        foo_one_def bar_one_def)

lemma scenario_cache:
  assumes "ToLower ''foo'' = ''foo''"
  shows "dbToProcedureMap
     (Register ToLower ''d'' foo_variadic (Register ToLower ''d'' foo_fixed NewProcedureCache))
   = [''d'' \<mapsto> [''foo'' \<mapsto> [2 \<mapsto> foo_fixed, MaxInt \<mapsto> foo_variadic]]]"
proof -
  have n: "ToLower (Name foo_fixed) = ''foo''" "ToLower (Name foo_variadic) = ''foo''"
    using assms by (simp_all add: foo_fixed_def foo_variadic_def)
  show ?thesis
    by (simp add: Register_def Let_def NewProcedureCache_def n paramLen_fixtures)
qed

lemma asciiToLower_scenario: "asciiToLower ''D'' = ''d''" "asciiToLower ''d'' = ''d''"
  "asciiToLower ''FOO'' = ''foo''" "asciiToLower ''foo'' = ''foo''"
  "asciiToLower ''Bar'' = ''bar''"
  by (simp_all add: asciiToLower_def asciiToLowerByte_def char_of_eq_iff)

lemma set_sort_insert: "set (sort_insert lt x xs) = insert x (set xs)"
  by (induction xs) auto

lemma length_sort_insert: "length (sort_insert lt x xs) = Suc (length xs)"
  by (induction xs) auto

lemma set_sort_Slice: "set (sort_Slice lt xs) = set xs"
  by (induction xs) (simp_all add: set_sort_insert)

lemma length_sort_Slice: "length (sort_Slice lt xs) = length xs"
  by (induction xs) (simp_all add: length_sort_insert)

lemma not_procedure_less: "(\<not> procedure_less q p) = name_count_le p q"
  by (auto simp: procedure_less_def name_count_le_def)

lemma name_count_le_trans:
  "name_count_le p q \<Longrightarrow> name_count_le q r \<Longrightarrow> name_count_le p r"
  by (auto simp: name_count_le_def)

lemma procedure_less_imp_le: "procedure_less p q \<Longrightarrow> name_count_le p q"
  by (auto simp: procedure_less_def name_count_le_def split: if_splits)

lemma sorted_sort_insert:
  "sorted_wrt name_count_le xs \<Longrightarrow> sorted_wrt name_count_le (sort_insert procedure_less x xs)"
proof (induction xs)
  case Nil
  show ?case by simp
next
  case (Cons y ys)
  show ?case
  proof (cases "procedure_less y x")
    case True
    have "name_count_le y x" using True by (rule procedure_less_imp_le)
    then show ?thesis
      using True Cons by (auto simp: set_sort_insert)
  next
    case False
    then have xy: "name_count_le x y" by (simp add: not_procedure_less)
    have "name_count_le x z" if "z \<in> set ys" for z
      using xy Cons.prems that by (auto intro: name_count_le_trans)
    then show ?thesis
      using False xy Cons.prems by auto
  qed
qed

lemma sorted_sort_Slice: "sorted_wrt name_count_le (sort_Slice procedure_less xs)"
  by (induction xs) (simp_all add: sorted_sort_insert)

lemma set_map_filter: "set (List.map_filter f ks) = {v. \<exists>k\<in>set ks. f k = Some v}"
  by (induction ks) (auto simp: List.map_filter_simps split: option.splits)

lemma length_map_filter_dom:
  assumes "distinct ks" and "set ks = dom f"
  shows "length (List.map_filter f ks) = card (dom f)"
proof -
  have "\<forall>k\<in>set ks. f k \<noteq> None" using assms(2) by auto
  then have "length (List.map_filter f ks) = length ks"
    by (induction ks) (auto simp: List.map_filter_simps split: option.splits)
  also have "\<dots> = card (set ks)" using assms(1) by (simp add: distinct_card)
  finally show ?thesis using assms(2) by simp
qed

lemma set_procedures_of_name:
  "set (case procMap n of None \<Rightarrow> [] | Some procedures \<Rightarrow> List.map_filter procedures ks)
   = {p. \<exists>procedures. procMap n = Some procedures \<and> (\<exists>k\<in>set ks. procedures k = Some p)}"
  by (cases "procMap n") (auto simp: set_map_filter)

lemma set_collect_procedures:
  "set (collect_procedures procMap nameOrder arityOrder)
   = {p. \<exists>n\<in>set nameOrder. \<exists>procedures. procMap n = Some procedures \<and>
          (\<exists>k\<in>set (arityOrder n). procedures k = Some p)}"
  by (auto simp: collect_procedures_def set_procedures_of_name)

lemma set_collect_procedures_dom:
  assumes "set nameOrder = dom procMap"
    and "\<forall>n\<in>dom procMap. set (arityOrder n) = dom (the (procMap n))"
  shows "set (collect_procedures procMap nameOrder arityOrder)
   = {p. \<exists>n procedures k. procMap n = Some procedures \<and> procedures k = Some p}"
proof -
  have "(\<exists>n\<in>set nameOrder. \<exists>procedures. procMap n = Some procedures \<and>
          (\<exists>k\<in>set (arityOrder n). procedures k = Some p))
        = (\<exists>n procedures k. procMap n = Some procedures \<and> procedures k = Some p)" for p
  proof
    assume "\<exists>n\<in>set nameOrder. \<exists>procedures. procMap n = Some procedures \<and>
          (\<exists>k\<in>set (arityOrder n). procedures k = Some p)"
    then show "\<exists>n procedures k. procMap n = Some procedures \<and> procedures k = Some p"
      by blast
  next
    assume "\<exists>n procedures k. procMap n = Some procedures \<and> procedures k = Some p"
    then obtain n procedures k where h: "procMap n = Some procedures" "procedures k = Some p"
      by blast
    have n: "n \<in> set nameOrder" using h(1) assms(1) by auto
    have "set (arityOrder n) = dom procedures" using assms(2) h(1) by force
    then have "k \<in> set (arityOrder n)" using h(2) by auto
    with n h show "\<exists>n\<in>set nameOrder. \<exists>procedures. procMap n = Some procedures \<and>
          (\<exists>k\<in>set (arityOrder n). procedures k = Some p)"
      by blast
  qed
  then show ?thesis by (simp add: set_collect_procedures)
qed

lemma length_collect_procedures:
  assumes "distinct nameOrder" and "set nameOrder = dom procMap"
    and "\<forall>n\<in>dom procMap. distinct (arityOrder n) \<and> set (arityOrder n) = dom (the (procMap n))"
  shows "length (collect_procedures procMap nameOrder arityOrder)
         = (\<Sum>n\<in>dom procMap. card (dom (the (procMap n))))"
proof -
  have each: "length (case procMap n of None \<Rightarrow> []
                 | Some procedures \<Rightarrow> List.map_filter procedures (arityOrder n))
              = card (dom (the (procMap n)))" if "n \<in> set nameOrder" for n
  proof -
    from that assms(2) obtain procedures where p: "procMap n = Some procedures" by auto
    have "distinct (arityOrder n)" "set (arityOrder n) = dom procedures"
      using assms(3) p by force+
    then show ?thesis using p by (simp add: length_map_filter_dom)
  qed
  have "length (collect_procedures procMap nameOrder arityOrder)
        = sum_list (map (\<lambda>n. card (dom (the (procMap n)))) nameOrder)"
    unfolding collect_procedures_def length_concat map_map comp_def
    using each by (auto intro!: arg_cong [where f = sum_list] map_cong)
  also have "\<dots> = (\<Sum>n\<in>set nameOrder. card (dom (the (procMap n))))"
    using assms(1) by (rule sum_list_distinct_conv_sum_set)
  finally show ?thesis using assms(2) by simp
qed

lemma listing_cache:
  "dbToProcedureMap (Register asciiToLower ''d'' bar_one (Register asciiToLower ''d'' foo_one
      (Register asciiToLower ''d'' foo_fixed NewProcedureCache)))
   = [''d'' \<mapsto> [''foo'' \<mapsto> [2 \<mapsto> foo_fixed, 1 \<mapsto> foo_one], ''bar'' \<mapsto> [1 \<mapsto> bar_one]]]"
proof -
  have n: "asciiToLower (Name foo_fixed) = ''foo''" "asciiToLower (Name foo_one) = ''foo''"
    "asciiToLower (Name bar_one) = ''bar''"
    by (simp_all add: foo_fixed_def foo_one_def bar_one_def asciiToLower_scenario)
  show ?thesis
    by (simp add: Register_def Let_def NewProcedureCache_def n paramLen_fixtures)
qed

lemma AllForDatabase_listing_example:
  "AllForDatabase asciiToLower
     (Register asciiToLower ''d'' bar_one (Register asciiToLower ''d'' foo_one
          (Register asciiToLower ''d'' foo_fixed NewProcedureCache)))
        ''D'' [''foo'', ''bar''] (\<lambda>n. if n = ''foo'' then [2, 1] else [1])
   = [bar_one, foo_one, foo_fixed]"
proof -
  have "AllForDatabase asciiToLower
     (Register asciiToLower ''d'' bar_one (Register asciiToLower ''d'' foo_one
          (Register asciiToLower ''d'' foo_fixed NewProcedureCache)))
        ''D'' [''foo'', ''bar''] (\<lambda>n. if n = ''foo'' then [2, 1] else [1])
        = sort_Slice procedure_less [foo_fixed, foo_one, bar_one]"
    by (simp add: AllForDatabase_def listing_cache asciiToLower_scenario collect_procedures_def
          List.map_filter_simps)
  also have "\<dots> = [bar_one, foo_one, foo_fixed]"
    by (simp add: procedure_less_def foo_fixed_def foo_one_def bar_one_def)
  finally show ?thesis .
qed

section \<open>Update execution: helper facts\<close>

lemma not_is_row_case:
  "\<not> is_row v \<Longrightarrow>
   (case v of RowVal r \<Rightarrow> f r | _ \<Rightarrow> d) = d"
  by (cases v) simp_all

lemma applyUpdateExpressions_prefix:
  "feeds pre row rs \<Longrightarrow>
   applyUpdateExpressions (pre @ es) row = applyUpdateExpressions es (last (row # rs))"
proof (induction pre arbitrary: row rs)
  case Nil
  then show ?case by simp
next
  case (Cons e pre)
  from Cons.prems obtain r rs' where rs: "rs = r # rs'"
    by (cases rs) auto
  with Cons.prems have e: "e row = Inr (RowVal r)" and f: "feeds pre r rs'"
    by simp_all
  have "applyUpdateExpressions ((e # pre) @ es) row = applyUpdateExpressions (pre @ es) r"
    using e by simp
  also have "\<dots> = applyUpdateExpressions es (last (r # rs'))"
    by (rule Cons.IH [OF f])
  finally show ?case using rs by simp
qed

lemma applyUpdateExpressions_Inr_iff:
  "(applyUpdateExpressions es row = Inr r) = (\<exists>rs. feeds es row rs \<and> r = last (row # rs))"
proof
  assume "\<exists>rs. feeds es row rs \<and> r = last (row # rs)"
  then obtain rs where "feeds es row rs" "r = last (row # rs)" by blast
  then show "applyUpdateExpressions es row = Inr r"
    using applyUpdateExpressions_prefix [of es row rs "[]"] by simp
next
  assume "applyUpdateExpressions es row = Inr r"
  then show "\<exists>rs. feeds es row rs \<and> r = last (row # rs)"
  proof (induction es arbitrary: row)
    case Nil
    then show ?case by simp
  next
    case (Cons e es)
    from Cons.prems obtain r1 where e: "e row = Inr (RowVal r1)"
      by (auto split: sum.splits val.splits)
    with Cons.prems have "applyUpdateExpressions es r1 = Inr r" by simp
    from Cons.IH [OF this] obtain rs where "feeds es r1 rs" "r = last (r1 # rs)" by blast
    with e have "feeds (e # es) row (r1 # rs) \<and> r = last (row # r1 # rs)" by simp
    then show ?case by blast
  qed
qed

lemma applyUpdateExpressions_propagates:
  assumes "es = pre @ e # post" and "feeds pre row rs" and "e (last (row # rs)) = Inl err"
  shows "applyUpdateExpressions es row = Inl err"
  using applyUpdateExpressions_prefix [OF assms(2), of "e # post"] assms(1,3) by simp

lemma applyUpdateExpressions_mismatch:
  assumes "es = pre @ e # post" and "feeds pre row rs" and "e (last (row # rs)) = Inr v"
    and "\<not> is_row v"
  shows "applyUpdateExpressions es row = Inl (ErrUpdateUnexpectedSetResult v)"
  using applyUpdateExpressions_prefix [OF assms(2), of "e # post"] assms(1,3,4)
  by (simp add: not_is_row_case)

lemma applyUpdateExpressions_Inl_cause:
  "applyUpdateExpressions es row = Inl err \<Longrightarrow>
   \<exists>pre e post rs. es = pre @ e # post \<and> feeds pre row rs \<and>
     (e (last (row # rs)) = Inl err \<or>
      (\<exists>v. e (last (row # rs)) = Inr v \<and> \<not> is_row v \<and> err = ErrUpdateUnexpectedSetResult v))"
proof (induction es arbitrary: row)
  case Nil
  then show ?case by simp
next
  case (Cons e es)
  show ?case
  proof (cases "e row")
    case (Inl err')
    with Cons.prems have "err' = err" by simp
    with Inl have "e # es = [] @ e # es \<and> feeds [] row [] \<and> e (last (row # [])) = Inl err"
      by simp
    then show ?thesis by blast
  next
    case (Inr v)
    show ?thesis
    proof (cases "is_row v")
      case False
      with Inr Cons.prems have "err = ErrUpdateUnexpectedSetResult v"
        by (simp add: not_is_row_case)
      with Inr False have "e # es = [] @ e # es \<and> feeds [] row [] \<and>
          e (last (row # [])) = Inr v \<and> \<not> is_row v \<and> err = ErrUpdateUnexpectedSetResult v"
        by simp
      then show ?thesis by blast
    next
      case True
      then obtain r1 where v: "v = RowVal r1" by (cases v) simp_all
      with Inr Cons.prems have "applyUpdateExpressions es r1 = Inl err" by simp
      from Cons.IH [OF this] obtain pre e' post rs where
        h: "es = pre @ e' # post" "feeds pre r1 rs"
           "e' (last (r1 # rs)) = Inl err \<or>
            (\<exists>v. e' (last (r1 # rs)) = Inr v \<and> \<not> is_row v \<and> err = ErrUpdateUnexpectedSetResult v)"
        by blast
      have "e # es = (e # pre) @ e' # post" using h(1) by simp
      moreover have "feeds (e # pre) row (r1 # rs)" using Inr v h(2) by simp
      moreover have "last (row # r1 # rs) = last (r1 # rs)" by simp
      ultimately show ?thesis using h(3) by metis
    qed
  qed
qed

lemma halves_of_paired_row:
  "length oldAndNewRow = 2 * N \<Longrightarrow>
   length (take (length oldAndNewRow div 2) oldAndNewRow) = N \<and>
   length (drop (length oldAndNewRow div 2) oldAndNewRow) = N \<and>
   take (length oldAndNewRow div 2) oldAndNewRow @ drop (length oldAndNewRow div 2) oldAndNewRow
     = oldAndNewRow"
  by simp

lemma updateIter_Next_child_error:
  "child_Next env (childIter u) = (Inl err, c') \<Longrightarrow>
   updateIter_Next env u = (Inl err, u\<lparr>childIter := c'\<rparr>, [CallChildNext])"
  by (simp add: updateIter_Next_def)

lemma updateIter_Next_equal:
  assumes "child_Next env (childIter u) = (Inr oldAndNewRow, c')"
    and "oldRow = take (length oldAndNewRow div 2) oldAndNewRow"
    and "newRow = drop (length oldAndNewRow div 2) oldAndNewRow"
    and "Equals env oldRow newRow (schema u) = Inr True"
  shows "updateIter_Next env u
         = (Inr oldAndNewRow, u\<lparr>childIter := c'\<rparr>, [CallChildNext, CallEquals oldRow newRow])"
  using assms by (simp add: updateIter_Next_def Let_def)

lemma updateIter_Next_equals_error:
  assumes "child_Next env (childIter u) = (Inr oldAndNewRow, c')"
    and "oldRow = take (length oldAndNewRow div 2) oldAndNewRow"
    and "newRow = drop (length oldAndNewRow div 2) oldAndNewRow"
    and "Equals env oldRow newRow (schema u) = Inl err"
  shows "updateIter_Next env u
         = (Inl err, u\<lparr>childIter := c'\<rparr>, [CallChildNext, CallEquals oldRow newRow])"
  using assms by (simp add: updateIter_Next_def Let_def)

lemma updateIter_Next_unequal:
  assumes "child_Next env (childIter u) = (Inr oldAndNewRow, c')"
    and "oldRow = take (length oldAndNewRow div 2) oldAndNewRow"
    and "newRow = drop (length oldAndNewRow div 2) oldAndNewRow"
    and "Equals env oldRow newRow (schema u) = Inr False"
    and "updater_Update env (updater u) oldRow newRow = (res, upd')"
  shows "updateIter_Next env u
         = ((case res of None \<Rightarrow> Inr oldAndNewRow | Some err \<Rightarrow> Inl err),
            u\<lparr>childIter := c', updater := upd'\<rparr>,
            [CallChildNext, CallEquals oldRow newRow, CallUpdate oldRow newRow])"
  using assms by (cases res) (simp_all add: updateIter_Next_def Let_def)

lemma updateIter_Close_closed:
  "closed u \<Longrightarrow> updateIter_Close env u = (None, u, [])"
  by (simp add: updateIter_Close_def)

lemma updateIter_Close_first_ok:
  assumes "\<not> closed u" and "updater_Close env (updater u) = (None, upd')"
    and "child_Close env (childIter u) = (res, c')"
  shows "updateIter_Close env u
         = (res, u\<lparr>closed := True, updater := upd', childIter := c'\<rparr>,
            [CallUpdaterClose, CallChildClose])"
  using assms by (simp add: updateIter_Close_def Let_def)

lemma updateIter_Close_first_error:
  assumes "\<not> closed u" and "updater_Close env (updater u) = (Some err, upd')"
  shows "updateIter_Close env u
         = (Some err, u\<lparr>closed := True, updater := upd'\<rparr>, [CallUpdaterClose])"
  using assms by (simp add: updateIter_Close_def Let_def)

lemma updateIter_Close_closes: "closed (fst (snd (updateIter_Close env u)))"
  by (cases "updater_Close env (updater u)"; cases "child_Close env (childIter u)";
      cases "fst (updater_Close env (updater u))")
     (simp_all add: updateIter_Close_def Let_def)

lemma SpanIter_neq_inner: "SpanIter sp it c mx mn t d \<noteq> it"
  by (induction it arbitrary: sp c mx mn t d) auto

section \<open>Warnings: the claims\<close>

text \<open>
  C7: \<open>Warnings\<close> returns the stored warnings in reverse insertion order, most recent
  first, as a fresh list: it reads the session and writes only the slice it allocated.
  After \<open>Warn w1\<close> then \<open>Warn w2\<close> on a fresh session it returns \<open>[w2, w1]\<close>, and the
  stored list is still \<open>[w1, w2]\<close>.
\<close>

theorem Warnings_newest_first:
  "Warnings s = rev (warnings s) \<and>
   Warnings (Warn w2 (Warn w1 NewBaseSession)) = [w2, w1] \<and>
   warnings (Warn w2 (Warn w1 NewBaseSession)) = [w1, w2]"
  by (simp add: Warnings_rev Warn_def NewBaseSession_def)

text \<open>
  C10: \<open>WarningCount\<close> is the number of stored warnings truncated to 16 bits, that is
  the length modulo \<open>2 ^ 16\<close>. \<open>Warn\<close> always appends, so the list grows without bound
  (\<open>n\<close> calls add \<open>n\<close> entries), and with more than 65535 warnings stored the reported
  count differs from the true number.
\<close>

theorem WarningCount_wraps:
  "unat (WarningCount s) = length (warnings s) mod 2 ^ 16 \<and>
   (65535 < length (warnings s) \<longrightarrow> unat (WarningCount s) \<noteq> length (warnings s)) \<and>
   length (warnings ((Warn w ^^ n) s)) = length (warnings s) + n"
proof -
  have a: "unat (WarningCount s) = length (warnings s) mod 2 ^ 16"
    by (simp add: WarningCount_def unat_of_nat)
  have "length (warnings s) mod 65536 < (65536 :: nat)"
    by simp
  then have b: "65535 < length (warnings s) \<longrightarrow> unat (WarningCount s) \<noteq> length (warnings s)"
    using a by auto
  have c: "length (warnings ((Warn w ^^ n) s)) = length (warnings s) + n"
    by (simp add: Warn_funpow_warnings)
  from a b c show ?thesis by blast
qed

theorem WarningCount_wraps_witness:
  "65535 < length (warnings ((Warn None ^^ 65536) NewBaseSession)) \<and>
   unat (WarningCount ((Warn None ^^ 65536) NewBaseSession)) = 0 \<and>
   unat (WarningCount ((Warn None ^^ 65536) NewBaseSession))
     \<noteq> length (warnings ((Warn None ^^ 65536) NewBaseSession))"
proof -
  have len: "length (warnings ((Warn None ^^ 65536) NewBaseSession)) = 65536"
    using WarningCount_wraps [where s = NewBaseSession and w = None and n = 65536]
    by (simp add: NewBaseSession_def)
  show ?thesis
    using WarningCount_wraps [where s = "(Warn None ^^ 65536) NewBaseSession" and w = None and n = 0] len
    by simp
qed

text \<open>
  C3, amended: \<open>ClearWarnings\<close> compares the acknowledgment counter with the number of
  stored warnings truncated to 16 bits. When they agree it empties the storage and resets
  the counter to zero; otherwise it leaves every stored warning in place and sets the
  counter to the truncated count. For a session holding fewer than \<open>2 ^ 16\<close> warnings
  the storage is therefore emptied only when the number of stored warnings equals the
  acknowledged count, and a warning appended right after a \<open>ClearWarnings\<close> survives the
  next \<open>ClearWarnings\<close>.
\<close>

theorem ClearWarnings_acknowledges:
  "(unat (warncnt s) = length (warnings s) mod 2 ^ 16 \<longrightarrow>
      warnings (ClearWarnings s) = [] \<and> warncnt (ClearWarnings s) = 0) \<and>
   (unat (warncnt s) \<noteq> length (warnings s) mod 2 ^ 16 \<longrightarrow>
      warnings (ClearWarnings s) = warnings s \<and>
      unat (warncnt (ClearWarnings s)) = length (warnings s) mod 2 ^ 16) \<and>
   (length (warnings s) < 2 ^ 16 \<longrightarrow> unat (warncnt s) \<noteq> length (warnings s) \<longrightarrow>
      warnings (ClearWarnings s) = warnings s \<and>
      unat (warncnt (ClearWarnings s)) = length (warnings s)) \<and>
   (length (warnings s) < 2 ^ 16 \<longrightarrow> warnings s \<noteq> [] \<longrightarrow> warnings (ClearWarnings s) = [] \<longrightarrow>
      unat (warncnt s) = length (warnings s)) \<and>
   warnings (ClearWarnings (Warn w (ClearWarnings s))) = warnings (ClearWarnings s) @ [w]"
proof -
  let ?n = "length (warnings s)"
  have cnt: "unat (of_nat ?n :: 16 word) = ?n mod 65536"
    by (rule unat_of_nat_16)
  have eq: "(warncnt s = of_nat ?n) = (unat (warncnt s) = ?n mod 65536)"
    by (simp add: word_unat_eq_iff cnt)
  have a: "unat (warncnt s) = ?n mod 2 ^ 16 \<longrightarrow>
      warnings (ClearWarnings s) = [] \<and> warncnt (ClearWarnings s) = 0"
    using eq by (simp add: ClearWarnings_def Let_def)
  have b: "unat (warncnt s) \<noteq> ?n mod 2 ^ 16 \<longrightarrow>
      warnings (ClearWarnings s) = warnings s \<and>
      unat (warncnt (ClearWarnings s)) = ?n mod 2 ^ 16"
    using eq cnt by (simp add: ClearWarnings_def Let_def)
  have c: "?n < 2 ^ 16 \<longrightarrow> unat (warncnt s) \<noteq> ?n \<longrightarrow>
      warnings (ClearWarnings s) = warnings s \<and>
      unat (warncnt (ClearWarnings s)) = ?n"
    using b by simp
  have d: "?n < 2 ^ 16 \<longrightarrow> warnings s \<noteq> [] \<longrightarrow> warnings (ClearWarnings s) = [] \<longrightarrow>
      unat (warncnt s) = ?n"
    using b by auto
  have e: "warnings (ClearWarnings (Warn w (ClearWarnings s))) = warnings (ClearWarnings s) @ [w]"
    by (rule ClearWarnings_after_Warn [OF ClearWarnings_ack_invariant])
  from a b c d e show ?thesis by blast
qed

theorem ClearWarnings_acknowledges_witness:
  "warnings (ClearWarnings (Warn (Some \<lparr>Level = ''Warning'', Code = 1, Message = ''m''\<rparr>)
      NewBaseSession)) = [Some \<lparr>Level = ''Warning'', Code = 1, Message = ''m''\<rparr>] \<and>
   unat (warncnt (ClearWarnings (Warn (Some \<lparr>Level = ''Warning'', Code = 1, Message = ''m''\<rparr>)
      NewBaseSession))) = 1 \<and>
   warnings (ClearWarnings (ClearWarnings (Warn (Some \<lparr>Level = ''Warning'', Code = 1, Message = ''m''\<rparr>)
      NewBaseSession))) = []"
proof -
  let ?w = "Some \<lparr>Level = ''Warning'', Code = 1, Message = ''m''\<rparr>"
  let ?s1 = "Warn ?w NewBaseSession"
  have s1: "warnings ?s1 = [?w]" "warncnt ?s1 = 0"
    by (simp_all add: Warn_def NewBaseSession_def)
  have first: "warnings (ClearWarnings ?s1) = [?w] \<and> unat (warncnt (ClearWarnings ?s1)) = 1"
    using ClearWarnings_acknowledges [where s = ?s1 and w = None] s1 by simp
  then have "warnings (ClearWarnings (ClearWarnings ?s1)) = []"
    using ClearWarnings_acknowledges [where s = "ClearWarnings ?s1" and w = None] by simp
  with first show ?thesis by simp
qed

text \<open>
  The claim fails without the bound: after 65536 calls of \<open>Warn\<close> on a fresh session the
  counter is still 0 and the truncated length is 0 too, so \<open>ClearWarnings\<close> empties the
  storage although 65536 warnings were appended since the last acknowledgment.
\<close>

theorem ClearWarnings_wrap_counterexample:
  "\<not> (\<forall>s. length (warnings s) \<noteq> unat (warncnt s) \<longrightarrow>
          warnings (ClearWarnings s) = warnings s)"
proof
  assume h: "\<forall>s. length (warnings s) \<noteq> unat (warncnt s) \<longrightarrow>
          warnings (ClearWarnings s) = warnings s"
  let ?s = "(Warn None ^^ 65536) NewBaseSession"
  have w: "warnings ?s = replicate 65536 None"
    by (simp add: Warn_funpow_warnings NewBaseSession_def)
  have c: "warncnt ?s = 0"
    by (simp add: Warn_funpow_warncnt NewBaseSession_def)
  have "warnings (ClearWarnings ?s) = []"
    using w c by (simp add: ClearWarnings_def Let_def)
  moreover have "length (warnings ?s) \<noteq> unat (warncnt ?s)"
    using w c by simp
  ultimately show False using h w by (metis length_replicate list.size(3) zero_neq_numeral)
qed
section \<open>Procedure cache: the claims\<close>

text \<open>
  C1: \<open>Get\<close> looks the cache up under the lowercased database name and the lowercased
  procedure name; lowercasing being idempotent, a call with any spelling of the two
  names is the call with their lowercase forms. A procedure filed under exactly that
  (database, name, count) is returned directly. Otherwise, when some procedure is filed
  under that (database, name), the scan returns a filed procedure whose effective arity
  \<open>paramLen\<close> no other filed procedure exceeds, in whatever order the map is visited; a
  variadic procedure's effective arity is \<open>MaxInt\<close>, above the arity of every procedure
  with fewer than \<open>MaxInt\<close> fixed parameters. With the two-parameter \<open>foo\<close> and the
  variadic \<open>foo\<close> both registered under \<open>d\<close>, \<open>Get D FOO 5\<close> is the variadic one and
  \<open>Get d foo 2\<close> the two-parameter one, given only what lowercasing does to these four
  names.
\<close>

theorem Get_resolution:
  "((\<forall>s. ToLower (ToLower s) = ToLower s) \<longrightarrow>
      Get ToLower pc dbName procedureName numOfParams rangeOrder
        = Get ToLower pc (ToLower dbName) (ToLower procedureName) numOfParams rangeOrder) \<and>
   (dbToProcedureMap pc (ToLower dbName) = Some procMap \<longrightarrow>
    procMap (ToLower procedureName) = Some procedures \<longrightarrow>
      (procedures numOfParams = Some p \<longrightarrow>
         Get ToLower pc dbName procedureName numOfParams rangeOrder = Some p) \<and>
      (procedures numOfParams = None \<longrightarrow> procedures \<noteq> Map.empty \<longrightarrow>
       set rangeOrder = dom procedures \<longrightarrow>
         (\<exists>q. Get ToLower pc dbName procedureName numOfParams rangeOrder = Some q \<and>
              q \<in> ran procedures \<and> (\<forall>r\<in>ran procedures. paramLen r \<le> paramLen q)))) \<and>
   (HasVariadicParameter v \<longrightarrow> paramLen v = MaxInt \<and>
      (\<not> HasVariadicParameter f \<longrightarrow> int (length (Params f)) < MaxInt \<longrightarrow>
         paramLen f < paramLen v)) \<and>
   (ToLower ''D'' = ''d'' \<longrightarrow> ToLower ''FOO'' = ''foo'' \<longrightarrow> ToLower ''foo'' = ''foo'' \<longrightarrow>
    set rangeOrder = {2, MaxInt} \<longrightarrow>
      Get ToLower
        (Register ToLower ''d'' foo_variadic (Register ToLower ''d'' foo_fixed NewProcedureCache))
        ''D'' ''FOO'' 5 rangeOrder = Some foo_variadic) \<and>
   (ToLower ''d'' = ''d'' \<longrightarrow> ToLower ''foo'' = ''foo'' \<longrightarrow>
      Get ToLower
        (Register ToLower ''d'' foo_variadic (Register ToLower ''d'' foo_fixed NewProcedureCache))
        ''d'' ''foo'' 2 rangeOrder = Some foo_fixed)"
proof -
  let ?C = "Register ToLower ''d'' foo_variadic (Register ToLower ''d'' foo_fixed NewProcedureCache)"
  let ?ps = "[2 \<mapsto> foo_fixed, MaxInt \<mapsto> foo_variadic]"
  have a: "(\<forall>s. ToLower (ToLower s) = ToLower s) \<longrightarrow>
      Get ToLower pc dbName procedureName numOfParams rangeOrder
        = Get ToLower pc (ToLower dbName) (ToLower procedureName) numOfParams rangeOrder"
    using Get_lowercases [of ToLower pc dbName procedureName numOfParams rangeOrder] by blast
  have b: "dbToProcedureMap pc (ToLower dbName) = Some procMap \<longrightarrow>
    procMap (ToLower procedureName) = Some procedures \<longrightarrow>
      (procedures numOfParams = Some p \<longrightarrow>
         Get ToLower pc dbName procedureName numOfParams rangeOrder = Some p) \<and>
      (procedures numOfParams = None \<longrightarrow> procedures \<noteq> Map.empty \<longrightarrow>
       set rangeOrder = dom procedures \<longrightarrow>
         (\<exists>q. Get ToLower pc dbName procedureName numOfParams rangeOrder = Some q \<and>
              q \<in> ran procedures \<and> (\<forall>r\<in>ran procedures. paramLen r \<le> paramLen q)))"
    using Get_scan_greatest [of rangeOrder procedures 0]
    by (simp add: Get_def)
  have c: "HasVariadicParameter v \<longrightarrow> paramLen v = MaxInt \<and>
      (\<not> HasVariadicParameter f \<longrightarrow> int (length (Params f)) < MaxInt \<longrightarrow>
         paramLen f < paramLen v)"
    by (simp add: paramLen_def)
  have m: "2 \<noteq> MaxInt" "5 \<noteq> MaxInt" by (simp_all add: MaxInt_def)
  have d: "Get ToLower ?C ''D'' ''FOO'' 5 rangeOrder = Some foo_variadic"
    if l: "ToLower ''D'' = ''d''" "ToLower ''FOO'' = ''foo''" "ToLower ''foo'' = ''foo''"
      and h: "set rangeOrder = {2, MaxInt}"
  proof -
    have dom: "set rangeOrder = dom ?ps" using h by auto
    have ne: "?ps \<noteq> Map.empty" by (metis map_upd_nonempty)
    from Get_scan_greatest [OF dom ne, of 0] obtain q where
      q: "Get_scan ?ps rangeOrder None 0 = Some q" "q \<in> ran ?ps"
         "\<forall>r\<in>ran ?ps. paramLen r \<le> paramLen q"
      by blast
    have v: "foo_variadic \<in> ran ?ps" by (auto simp: ran_def)
    have "q = foo_fixed \<or> q = foo_variadic"
      using q(2) by (auto simp: ran_def split: if_splits)
    moreover have "paramLen foo_variadic \<le> paramLen q" using q(3) v by blast
    ultimately have "q = foo_variadic"
      by (auto simp: paramLen_fixtures MaxInt_def)
    then show ?thesis
      using q(1) m by (simp add: Get_def scenario_cache [where ToLower = ToLower, OF l(3)] l)
  qed
  have e: "Get ToLower ?C ''d'' ''foo'' 2 rangeOrder = Some foo_fixed"
    if l: "ToLower ''d'' = ''d''" "ToLower ''foo'' = ''foo''"
    using m by (simp add: Get_def scenario_cache [where ToLower = ToLower, OF l(2)] l)
  from a b c d e show ?thesis by blast
qed

theorem Get_resolution_witness:
  "Get asciiToLower
     (Register asciiToLower ''d'' foo_variadic
        (Register asciiToLower ''d'' foo_fixed NewProcedureCache))
     ''d'' ''foo'' 2 [2, MaxInt] = Some foo_fixed \<and>
   (\<exists>q. Get asciiToLower
          (Register asciiToLower ''d'' foo_variadic
             (Register asciiToLower ''d'' foo_fixed NewProcedureCache))
          ''D'' ''FOO'' 5 [MaxInt, 2] = Some q \<and>
        paramLen foo_fixed \<le> paramLen q \<and> paramLen foo_variadic \<le> paramLen q) \<and>
   Get asciiToLower
     (Register asciiToLower ''d'' foo_variadic
        (Register asciiToLower ''d'' foo_fixed NewProcedureCache))
     ''D'' ''FOO'' 5 [MaxInt, 2] = Some foo_variadic \<and>
   Get asciiToLower
     (Register asciiToLower ''d'' foo_variadic
        (Register asciiToLower ''d'' foo_fixed NewProcedureCache))
     ''D'' ''FOO'' 5 [MaxInt, 2]
     = Get asciiToLower
         (Register asciiToLower ''d'' foo_variadic
            (Register asciiToLower ''d'' foo_fixed NewProcedureCache))
         ''d'' ''foo'' 5 [MaxInt, 2] \<and>
   paramLen foo_fixed < paramLen foo_variadic"
proof -
  let ?C = "Register asciiToLower ''d'' foo_variadic
              (Register asciiToLower ''d'' foo_fixed NewProcedureCache)"
  let ?ps = "[2 \<mapsto> foo_fixed, MaxInt \<mapsto> foo_variadic]"
  let ?pm = "[''foo'' \<mapsto> ?ps]"
  have idem: "\<forall>s. asciiToLower (asciiToLower s) = asciiToLower s"
    by (simp add: asciiToLower_idem)
  have m: "2 \<noteq> MaxInt" "5 \<noteq> MaxInt" by (simp_all add: MaxInt_def)
  have pm: "dbToProcedureMap ?C (asciiToLower ''D'') = Some ?pm"
           "dbToProcedureMap ?C (asciiToLower ''d'') = Some ?pm"
    by (simp_all add: scenario_cache asciiToLower_scenario)
  have ps: "?pm (asciiToLower ''FOO'') = Some ?ps" "?pm (asciiToLower ''foo'') = Some ?ps"
    by (simp_all add: asciiToLower_scenario)
  have hit: "?ps 2 = Some foo_fixed" using m by simp
  have miss: "?ps 5 = None" using m by simp
  have ne: "?ps \<noteq> Map.empty" by (metis map_upd_nonempty)
  have dom: "set [MaxInt, 2] = dom ?ps" by auto
  have ran: "foo_fixed \<in> ran ?ps" "foo_variadic \<in> ran ?ps"
    using m by (auto simp: ran_def)
  have var: "HasVariadicParameter foo_variadic" "\<not> HasVariadicParameter foo_fixed"
    "int (length (Params foo_fixed)) < MaxInt"
    by (simp_all add: HasVariadicParameter_def foo_variadic_def foo_fixed_def MaxInt_def)
  have set2: "set [MaxInt, 2] = {2, MaxInt}" by auto
  note exact = Get_resolution [where ToLower = asciiToLower and pc = ?C and dbName = "''d''"
      and procedureName = "''foo''" and numOfParams = 2 and rangeOrder = "[2, MaxInt]"
      and procMap = ?pm and procedures = ?ps and p = foo_fixed and v = foo_variadic
      and f = foo_fixed]
  note fallback = Get_resolution [where ToLower = asciiToLower and pc = ?C and dbName = "''D''"
      and procedureName = "''FOO''" and numOfParams = 5 and rangeOrder = "[MaxInt, 2]"
      and procMap = ?pm and procedures = ?ps and p = foo_fixed and v = foo_variadic
      and f = foo_fixed]
  have 1: "Get asciiToLower ?C ''d'' ''foo'' 2 [2, MaxInt] = Some foo_fixed"
    using exact pm(2) ps(2) hit by blast
  have 2: "\<exists>q. Get asciiToLower ?C ''D'' ''FOO'' 5 [MaxInt, 2] = Some q \<and>
        paramLen foo_fixed \<le> paramLen q \<and> paramLen foo_variadic \<le> paramLen q"
    using fallback pm(1) ps(1) miss ne dom ran by blast
  have 3: "Get asciiToLower ?C ''D'' ''FOO'' 5 [MaxInt, 2] = Some foo_variadic"
    using fallback set2 asciiToLower_scenario by blast
  have "Get asciiToLower ?C ''D'' ''FOO'' 5 [MaxInt, 2]
        = Get asciiToLower ?C (asciiToLower ''D'') (asciiToLower ''FOO'') 5 [MaxInt, 2]"
    using fallback idem by blast
  then have 4: "Get asciiToLower ?C ''D'' ''FOO'' 5 [MaxInt, 2]
        = Get asciiToLower ?C ''d'' ''foo'' 5 [MaxInt, 2]"
    by (simp add: asciiToLower_scenario)
  have 5: "paramLen foo_fixed < paramLen foo_variadic"
    using fallback var by blast
  from 1 2 3 4 5 show ?thesis by blast
qed



text \<open>
  C6: \<open>AllForDatabase\<close> looks the cache up under the lowercased database name. With no
  entry there it returns the empty list. Otherwise, whatever the order in which the two
  loops visit the maps, the result holds exactly the procedures filed under that
  database (each filed entry once) and is sorted ascending by name, then by parameter
  count. This holds in every cache state, so it does not depend on the order of the
  registrations.
\<close>

theorem AllForDatabase_sorted:
  "(dbToProcedureMap pc (ToLower dbName) = None \<longrightarrow>
      AllForDatabase ToLower pc dbName nameOrder arityOrder = []) \<and>
   (dbToProcedureMap pc (ToLower dbName) = Some procMap \<longrightarrow>
    distinct nameOrder \<longrightarrow> set nameOrder = dom procMap \<longrightarrow>
    (\<forall>n\<in>dom procMap. distinct (arityOrder n) \<and> set (arityOrder n) = dom (the (procMap n))) \<longrightarrow>
      set (AllForDatabase ToLower pc dbName nameOrder arityOrder)
        = {p. \<exists>n procedures k. procMap n = Some procedures \<and> procedures k = Some p} \<and>
      length (AllForDatabase ToLower pc dbName nameOrder arityOrder)
        = (\<Sum>n\<in>dom procMap. card (dom (the (procMap n)))) \<and>
      sorted_wrt name_count_le (AllForDatabase ToLower pc dbName nameOrder arityOrder))"
proof -
  have a: "dbToProcedureMap pc (ToLower dbName) = None \<longrightarrow>
      AllForDatabase ToLower pc dbName nameOrder arityOrder = []"
    by (simp add: AllForDatabase_def)
  have b: "set (AllForDatabase ToLower pc dbName nameOrder arityOrder)
        = {p. \<exists>n procedures k. procMap n = Some procedures \<and> procedures k = Some p} \<and>
      length (AllForDatabase ToLower pc dbName nameOrder arityOrder)
        = (\<Sum>n\<in>dom procMap. card (dom (the (procMap n)))) \<and>
      sorted_wrt name_count_le (AllForDatabase ToLower pc dbName nameOrder arityOrder)"
    if pm: "dbToProcedureMap pc (ToLower dbName) = Some procMap"
      and d: "distinct nameOrder" and s: "set nameOrder = dom procMap"
      and ar: "\<forall>n\<in>dom procMap. distinct (arityOrder n) \<and>
                 set (arityOrder n) = dom (the (procMap n))"
  proof -
    have eq: "AllForDatabase ToLower pc dbName nameOrder arityOrder
              = sort_Slice procedure_less (collect_procedures procMap nameOrder arityOrder)"
      using pm by (simp add: AllForDatabase_def)
    have ar': "\<forall>n\<in>dom procMap. set (arityOrder n) = dom (the (procMap n))"
      using ar by blast
    have 1: "set (AllForDatabase ToLower pc dbName nameOrder arityOrder)
        = {p. \<exists>n procedures k. procMap n = Some procedures \<and> procedures k = Some p}"
      unfolding eq set_sort_Slice by (rule set_collect_procedures_dom [OF s ar'])
    have 2: "length (AllForDatabase ToLower pc dbName nameOrder arityOrder)
        = (\<Sum>n\<in>dom procMap. card (dom (the (procMap n))))"
      unfolding eq length_sort_Slice by (rule length_collect_procedures [OF d s ar])
    have 3: "sorted_wrt name_count_le (AllForDatabase ToLower pc dbName nameOrder arityOrder)"
      unfolding eq by (rule sorted_sort_Slice)
    from 1 2 3 show ?thesis by blast
  qed
  from a b show ?thesis by blast
qed

theorem AllForDatabase_sorted_witness:
  "AllForDatabase asciiToLower NewProcedureCache ''D'' [] (\<lambda>n. []) = [] \<and>
   set (AllForDatabase asciiToLower (Register asciiToLower ''d'' bar_one (Register asciiToLower ''d'' foo_one
          (Register asciiToLower ''d'' foo_fixed NewProcedureCache)))
        ''D'' [''foo'', ''bar''] (\<lambda>n. if n = ''foo'' then [2, 1] else [1]))
     = {foo_fixed, foo_one, bar_one} \<and>
   length (AllForDatabase asciiToLower (Register asciiToLower ''d'' bar_one (Register asciiToLower ''d'' foo_one
          (Register asciiToLower ''d'' foo_fixed NewProcedureCache)))
        ''D'' [''foo'', ''bar''] (\<lambda>n. if n = ''foo'' then [2, 1] else [1])) = 3 \<and>
   sorted_wrt name_count_le
     (AllForDatabase asciiToLower (Register asciiToLower ''d'' bar_one (Register asciiToLower ''d'' foo_one
          (Register asciiToLower ''d'' foo_fixed NewProcedureCache)))
        ''D'' [''foo'', ''bar''] (\<lambda>n. if n = ''foo'' then [2, 1] else [1]))"
proof -
  let ?C = "Register asciiToLower ''d'' bar_one (Register asciiToLower ''d'' foo_one
          (Register asciiToLower ''d'' foo_fixed NewProcedureCache))"
  let ?pm = "[''foo'' \<mapsto> [2 \<mapsto> foo_fixed, 1 \<mapsto> foo_one], ''bar'' \<mapsto> [(1::int) \<mapsto> bar_one]]"
  let ?ao = "\<lambda>n. if n = ''foo'' then [2, 1] else [1::int]"
  have e: "dbToProcedureMap NewProcedureCache (asciiToLower ''D'') = None"
    by (simp add: NewProcedureCache_def)
  have 0: "AllForDatabase asciiToLower NewProcedureCache ''D'' [] (\<lambda>n. []) = []"
    using AllForDatabase_sorted [where ToLower = asciiToLower and pc = NewProcedureCache and dbName = "''D''"
        and nameOrder = "[]" and arityOrder = "\<lambda>n. []" and procMap = Map.empty] e
    by blast
  have pm: "dbToProcedureMap ?C (asciiToLower ''D'') = Some ?pm"
    by (simp add: listing_cache asciiToLower_scenario)
  have d: "distinct [''foo'', ''bar'']" by simp
  have s: "set [''foo'', ''bar''] = dom ?pm" by auto
  have ar: "\<forall>n\<in>dom ?pm. distinct (?ao n) \<and> set (?ao n) = dom (the (?pm n))"
    by auto
  have pmn: "(?pm n = Some ps) =
      (n = ''bar'' \<and> ps = [1 \<mapsto> bar_one] \<or>
       n = ''foo'' \<and> ps = [2 \<mapsto> foo_fixed, 1 \<mapsto> foo_one])" for n ps
    by auto
  have fo: "([2 \<mapsto> foo_fixed, 1 \<mapsto> foo_one] k = Some p) =
      (k = 1 \<and> p = foo_one \<or> k = 2 \<and> p = foo_fixed)" for k :: int and p
    by auto
  have ba: "([1 \<mapsto> bar_one] k = Some p) = (k = 1 \<and> p = bar_one)" for k :: int and p
    by auto
  have r: "{p. \<exists>n procedures k. ?pm n = Some procedures \<and> procedures k = Some p}
           = {foo_fixed, foo_one, bar_one}"
  proof (rule set_eqI)
    fix x
    have "(\<exists>n procedures k. ?pm n = Some procedures \<and> procedures k = Some x)
          = ((\<exists>k. [1 \<mapsto> bar_one] (k::int) = Some x) \<or>
             (\<exists>k. [2 \<mapsto> foo_fixed, 1 \<mapsto> foo_one] (k::int) = Some x))"
      unfolding pmn by blast
    also have "\<dots> = (x = bar_one \<or> x = foo_one \<or> x = foo_fixed)"
      unfolding fo ba by blast
    finally show "(x \<in> {p. \<exists>n procedures k. ?pm n = Some procedures \<and> procedures k = Some p})
          = (x \<in> {foo_fixed, foo_one, bar_one})"
      by blast
  qed
  have l: "(\<Sum>n\<in>dom ?pm. card (dom (the (?pm n)))) = 3"
    by simp
  from AllForDatabase_sorted [where ToLower = asciiToLower and pc = ?C and dbName = "''D''"
        and nameOrder = "[''foo'', ''bar'']" and arityOrder = ?ao and procMap = ?pm]
    pm d s ar
  have "set (AllForDatabase asciiToLower ?C ''D'' [''foo'', ''bar''] ?ao)
        = {p. \<exists>n procedures k. ?pm n = Some procedures \<and> procedures k = Some p} \<and>
      length (AllForDatabase asciiToLower ?C ''D'' [''foo'', ''bar''] ?ao)
        = (\<Sum>n\<in>dom ?pm. card (dom (the (?pm n)))) \<and>
      sorted_wrt name_count_le (AllForDatabase asciiToLower ?C ''D'' [''foo'', ''bar''] ?ao)"
    by blast
  with r l 0 show ?thesis by simp
qed
section \<open>Update execution: the claims\<close>

text \<open>
  C8, amended: \<open>applyUpdateExpressions\<close> evaluates the expressions in order, each on
  the row produced by the one before it. It returns a row exactly when every expression
  evaluates without error to a row, and then it is the row of the last expression (the
  input row when there is no expression). When the first expression that does not do so
  returns an error, that error is the result, unchanged; when it evaluates to a value
  that is not a row, the result is \<open>ErrUpdateUnexpectedSetResult\<close> of that value. So
  the transform fails with the type-mismatch error of a value \<open>w\<close> if and only if the
  first expression that does not evaluate to a row either evaluates without error to
  \<open>w\<close>, which is not a row, or itself returns that very error.
\<close>

theorem applyUpdateExpressions_outcome:
  "((applyUpdateExpressions es row = Inr r) = (\<exists>rs. feeds es row rs \<and> r = last (row # rs))) \<and>
   (es = pre @ e # post \<longrightarrow> feeds pre row rs \<longrightarrow>
      (e (last (row # rs)) = Inl err \<longrightarrow> applyUpdateExpressions es row = Inl err) \<and>
      (e (last (row # rs)) = Inr v \<longrightarrow> \<not> is_row v \<longrightarrow>
         applyUpdateExpressions es row = Inl (ErrUpdateUnexpectedSetResult v))) \<and>
   ((applyUpdateExpressions es row = Inl (ErrUpdateUnexpectedSetResult w)) =
    (\<exists>pre' x post' rs'. es = pre' @ x # post' \<and> feeds pre' row rs' \<and>
        (x (last (row # rs')) = Inr w \<and> \<not> is_row w \<or>
         x (last (row # rs')) = Inl (ErrUpdateUnexpectedSetResult w))))"
proof -
  have a: "(applyUpdateExpressions es row = Inr r) = (\<exists>rs. feeds es row rs \<and> r = last (row # rs))"
    by (rule applyUpdateExpressions_Inr_iff)
  have b: "es = pre @ e # post \<longrightarrow> feeds pre row rs \<longrightarrow>
      (e (last (row # rs)) = Inl err \<longrightarrow> applyUpdateExpressions es row = Inl err) \<and>
      (e (last (row # rs)) = Inr v \<longrightarrow> \<not> is_row v \<longrightarrow>
         applyUpdateExpressions es row = Inl (ErrUpdateUnexpectedSetResult v))"
    using applyUpdateExpressions_propagates [of es pre e post row rs err]
      applyUpdateExpressions_mismatch [of es pre e post row rs v]
    by blast
  have c: "(applyUpdateExpressions es row = Inl (ErrUpdateUnexpectedSetResult w)) =
    (\<exists>pre' x post' rs'. es = pre' @ x # post' \<and> feeds pre' row rs' \<and>
        (x (last (row # rs')) = Inr w \<and> \<not> is_row w \<or>
         x (last (row # rs')) = Inl (ErrUpdateUnexpectedSetResult w)))"
  proof
    assume "applyUpdateExpressions es row = Inl (ErrUpdateUnexpectedSetResult w)"
    from applyUpdateExpressions_Inl_cause [OF this] obtain pre' x post' rs' where
      g: "es = pre' @ x # post'" "feeds pre' row rs'"
         "x (last (row # rs')) = Inl (ErrUpdateUnexpectedSetResult w) \<or>
          (\<exists>u. x (last (row # rs')) = Inr u \<and> \<not> is_row u \<and>
               ErrUpdateUnexpectedSetResult w = ErrUpdateUnexpectedSetResult u)"
      by blast
    from g(3) have "x (last (row # rs')) = Inr w \<and> \<not> is_row w \<or>
         x (last (row # rs')) = Inl (ErrUpdateUnexpectedSetResult w)"
      by auto
    with g(1,2) show "\<exists>pre' x post' rs'. es = pre' @ x # post' \<and> feeds pre' row rs' \<and>
        (x (last (row # rs')) = Inr w \<and> \<not> is_row w \<or>
         x (last (row # rs')) = Inl (ErrUpdateUnexpectedSetResult w))"
      by blast
  next
    assume "\<exists>pre' x post' rs'. es = pre' @ x # post' \<and> feeds pre' row rs' \<and>
        (x (last (row # rs')) = Inr w \<and> \<not> is_row w \<or>
         x (last (row # rs')) = Inl (ErrUpdateUnexpectedSetResult w))"
    then obtain pre' x post' rs' where
      g: "es = pre' @ x # post'" "feeds pre' row rs'"
         "x (last (row # rs')) = Inr w \<and> \<not> is_row w \<or>
          x (last (row # rs')) = Inl (ErrUpdateUnexpectedSetResult w)"
      by blast
    from g(3) show "applyUpdateExpressions es row = Inl (ErrUpdateUnexpectedSetResult w)"
    proof
      assume "x (last (row # rs')) = Inr w \<and> \<not> is_row w"
      then show ?thesis
        using applyUpdateExpressions_mismatch [OF g(1,2)] by blast
    next
      assume "x (last (row # rs')) = Inl (ErrUpdateUnexpectedSetResult w)"
      then show ?thesis
        by (rule applyUpdateExpressions_propagates [OF g(1,2)])
    qed
  qed
  from a b c show ?thesis by blast
qed

theorem applyUpdateExpressions_outcome_witness:
  "applyUpdateExpressions [append_one, append_one] [] = Inr [IntVal 1, IntVal 1] \<and>
   applyUpdateExpressions [append_one, failing, yield_scalar] [] = Inl (Failure ''boom'') \<and>
   applyUpdateExpressions [append_one, yield_scalar, failing] []
     = Inl (ErrUpdateUnexpectedSetResult (IntVal 7)) \<and>
   applyUpdateExpressions [append_one, failing_mismatch, yield_scalar] []
     = Inl (ErrUpdateUnexpectedSetResult NullVal)"
proof -
  have f1: "feeds [append_one] [] [[IntVal 1]]"
    by (simp add: append_one_def)
  have f2: "feeds [append_one, append_one] [] [[IntVal 1], [IntVal 1, IntVal 1]]"
    by (simp add: append_one_def)
  have 1: "applyUpdateExpressions [append_one, append_one] [] = Inr [IntVal 1, IntVal 1]"
    using applyUpdateExpressions_outcome [where es = "[append_one, append_one]" and row = "[]"
        and r = "[IntVal 1, IntVal 1]" and pre = "[]" and e = append_one and post = "[append_one]"
        and rs = "[]" and err = EOF and v = NullVal and w = NullVal] f2
    by auto
  have 2: "applyUpdateExpressions [append_one, failing, yield_scalar] [] = Inl (Failure ''boom'')"
    using applyUpdateExpressions_outcome [where es = "[append_one, failing, yield_scalar]"
        and row = "[]" and r = "[]" and pre = "[append_one]" and e = failing
        and post = "[yield_scalar]" and rs = "[[IntVal 1]]" and err = "Failure ''boom''"
        and v = NullVal and w = NullVal] f1
    by (simp add: failing_def)
  have 3: "applyUpdateExpressions [append_one, yield_scalar, failing] []
     = Inl (ErrUpdateUnexpectedSetResult (IntVal 7))"
    using applyUpdateExpressions_outcome [where es = "[append_one, yield_scalar, failing]"
        and row = "[]" and r = "[]" and pre = "[append_one]" and e = yield_scalar
        and post = "[failing]" and rs = "[[IntVal 1]]" and err = EOF and v = "IntVal 7"
        and w = NullVal] f1
    by (simp add: yield_scalar_def)
  have 4: "applyUpdateExpressions [append_one, failing_mismatch, yield_scalar] []
     = Inl (ErrUpdateUnexpectedSetResult NullVal)"
    using applyUpdateExpressions_outcome [where es = "[append_one, failing_mismatch, yield_scalar]"
        and row = "[]" and r = "[]" and pre = "[append_one]" and e = failing_mismatch
        and post = "[yield_scalar]" and rs = "[[IntVal 1]]"
        and err = "ErrUpdateUnexpectedSetResult NullVal" and v = NullVal and w = NullVal] f1
    by (simp add: failing_mismatch_def)
  from 1 2 3 4 show ?thesis by blast
qed

text \<open>
  Without the second alternative the equivalence fails: an expression whose own
  evaluation returns an \<open>ErrUpdateUnexpectedSetResult\<close> error makes the transform fail
  with that error, and no expression has evaluated to a value that is not a row.
\<close>

theorem applyUpdateExpressions_propagated_mismatch_counterexample:
  "\<not> (\<forall>es row.
         (\<exists>v. applyUpdateExpressions es row = Inl (ErrUpdateUnexpectedSetResult v)) =
         (\<exists>pre x post rs v. es = pre @ x # post \<and> feeds pre row rs \<and>
             x (last (row # rs)) = Inr v \<and> \<not> is_row v))"
proof
  assume h: "\<forall>es row.
         (\<exists>v. applyUpdateExpressions es row = Inl (ErrUpdateUnexpectedSetResult v)) =
         (\<exists>pre x post rs v. es = pre @ x # post \<and> feeds pre row rs \<and>
             x (last (row # rs)) = Inr v \<and> \<not> is_row v)"
  have "applyUpdateExpressions [failing_mismatch] [] = Inl (ErrUpdateUnexpectedSetResult NullVal)"
    by (simp add: failing_mismatch_def)
  with h obtain pre x post rs v where
    g: "[failing_mismatch] = pre @ x # post" "x (last ([] # rs)) = Inr v"
    by blast
  from g(1) have "x = failing_mismatch"
    by (cases pre) simp_all
  with g(2) show False
    by (simp add: failing_mismatch_def)
qed

text \<open>
  C4: when the child iterator yields a paired row, \<open>updateIter_Next\<close> splits it at the
  midpoint (for a row of width \<open>2 * N\<close>, into two halves of width \<open>N\<close>) and compares
  the halves under the schema. If they are unequal, the updater's \<open>Update\<close> is called
  exactly once, with the old and the new half, and the paired row is returned unless
  \<open>Update\<close> fails, in which case its error is returned. If they are equal, \<open>Update\<close>
  is not called, the updater is left as it was, and the paired row is returned. If the
  comparison fails, its error is returned and \<open>Update\<close> is not called.
\<close>

theorem updateIter_Next_diff:
  "child_Next env (childIter u) = (Inr oldAndNewRow, c') \<longrightarrow>
   oldRow = take (length oldAndNewRow div 2) oldAndNewRow \<longrightarrow>
   newRow = drop (length oldAndNewRow div 2) oldAndNewRow \<longrightarrow>
     (length oldAndNewRow = 2 * N \<longrightarrow>
        length oldRow = N \<and> length newRow = N \<and> oldRow @ newRow = oldAndNewRow) \<and>
     (Equals env oldRow newRow (schema u) = Inr False \<longrightarrow>
        updates_in (snd (snd (updateIter_Next env u))) = [(oldRow, newRow)] \<and>
        snd (snd (updateIter_Next env u))
          = [CallChildNext, CallEquals oldRow newRow, CallUpdate oldRow newRow] \<and>
        updater (fst (snd (updateIter_Next env u)))
          = snd (updater_Update env (updater u) oldRow newRow) \<and>
        (fst (updater_Update env (updater u) oldRow newRow) = None \<longrightarrow>
           fst (updateIter_Next env u) = Inr oldAndNewRow) \<and>
        (fst (updater_Update env (updater u) oldRow newRow) = Some err \<longrightarrow>
           fst (updateIter_Next env u) = Inl err)) \<and>
     (Equals env oldRow newRow (schema u) = Inr True \<longrightarrow>
        updates_in (snd (snd (updateIter_Next env u))) = [] \<and>
        updater (fst (snd (updateIter_Next env u))) = updater u \<and>
        fst (updateIter_Next env u) = Inr oldAndNewRow) \<and>
     (Equals env oldRow newRow (schema u) = Inl err \<longrightarrow>
        updates_in (snd (snd (updateIter_Next env u))) = [] \<and>
        updater (fst (snd (updateIter_Next env u))) = updater u \<and>
        fst (updateIter_Next env u) = Inl err)"
proof (intro impI)
  assume ch: "child_Next env (childIter u) = (Inr oldAndNewRow, c')"
    and o: "oldRow = take (length oldAndNewRow div 2) oldAndNewRow"
    and n: "newRow = drop (length oldAndNewRow div 2) oldAndNewRow"
  have a: "length oldAndNewRow = 2 * N \<longrightarrow>
        length oldRow = N \<and> length newRow = N \<and> oldRow @ newRow = oldAndNewRow"
    using halves_of_paired_row [of oldAndNewRow N] o n by blast
  have b: "updates_in (snd (snd (updateIter_Next env u))) = [(oldRow, newRow)] \<and>
        snd (snd (updateIter_Next env u))
          = [CallChildNext, CallEquals oldRow newRow, CallUpdate oldRow newRow] \<and>
        updater (fst (snd (updateIter_Next env u)))
          = snd (updater_Update env (updater u) oldRow newRow) \<and>
        (fst (updater_Update env (updater u) oldRow newRow) = None \<longrightarrow>
           fst (updateIter_Next env u) = Inr oldAndNewRow) \<and>
        (fst (updater_Update env (updater u) oldRow newRow) = Some err \<longrightarrow>
           fst (updateIter_Next env u) = Inl err)"
    if e: "Equals env oldRow newRow (schema u) = Inr False"
  proof -
    obtain res upd' where up: "updater_Update env (updater u) oldRow newRow = (res, upd')"
      by (cases "updater_Update env (updater u) oldRow newRow")
    show ?thesis
      unfolding updateIter_Next_unequal [OF ch o n e up] up by simp
  qed
  have c: "updates_in (snd (snd (updateIter_Next env u))) = [] \<and>
        updater (fst (snd (updateIter_Next env u))) = updater u \<and>
        fst (updateIter_Next env u) = Inr oldAndNewRow"
    if e: "Equals env oldRow newRow (schema u) = Inr True"
    unfolding updateIter_Next_equal [OF ch o n e] by simp
  have d: "updates_in (snd (snd (updateIter_Next env u))) = [] \<and>
        updater (fst (snd (updateIter_Next env u))) = updater u \<and>
        fst (updateIter_Next env u) = Inl err"
    if e: "Equals env oldRow newRow (schema u) = Inl err"
    unfolding updateIter_Next_equals_error [OF ch o n e] by simp
  from a b c d show "(length oldAndNewRow = 2 * N \<longrightarrow>
        length oldRow = N \<and> length newRow = N \<and> oldRow @ newRow = oldAndNewRow) \<and>
     (Equals env oldRow newRow (schema u) = Inr False \<longrightarrow>
        updates_in (snd (snd (updateIter_Next env u))) = [(oldRow, newRow)] \<and>
        snd (snd (updateIter_Next env u))
          = [CallChildNext, CallEquals oldRow newRow, CallUpdate oldRow newRow] \<and>
        updater (fst (snd (updateIter_Next env u)))
          = snd (updater_Update env (updater u) oldRow newRow) \<and>
        (fst (updater_Update env (updater u) oldRow newRow) = None \<longrightarrow>
           fst (updateIter_Next env u) = Inr oldAndNewRow) \<and>
        (fst (updater_Update env (updater u) oldRow newRow) = Some err \<longrightarrow>
           fst (updateIter_Next env u) = Inl err)) \<and>
     (Equals env oldRow newRow (schema u) = Inr True \<longrightarrow>
        updates_in (snd (snd (updateIter_Next env u))) = [] \<and>
        updater (fst (snd (updateIter_Next env u))) = updater u \<and>
        fst (updateIter_Next env u) = Inr oldAndNewRow) \<and>
     (Equals env oldRow newRow (schema u) = Inl err \<longrightarrow>
        updates_in (snd (snd (updateIter_Next env u))) = [] \<and>
        updater (fst (snd (updateIter_Next env u))) = updater u \<and>
        fst (updateIter_Next env u) = Inl err)"
    by blast
qed

theorem updateIter_Next_diff_witness:
  "fst (updateIter_Next (scripted None None None)
          (newUpdateIter [Inr [IntVal 1, IntVal 2]] [''a''] 0)) = Inr [IntVal 1, IntVal 2] \<and>
   updates_in (snd (snd (updateIter_Next (scripted None None None)
          (newUpdateIter [Inr [IntVal 1, IntVal 2]] [''a''] 0)))) = [([IntVal 1], [IntVal 2])] \<and>
   updater (fst (snd (updateIter_Next (scripted None None None)
          (newUpdateIter [Inr [IntVal 1, IntVal 2]] [''a''] 0)))) = 1 \<and>
   fst (updateIter_Next (scripted (Some (Failure ''w'')) None None)
          (newUpdateIter [Inr [IntVal 1, IntVal 2]] [''a''] 0)) = Inl (Failure ''w'') \<and>
   fst (updateIter_Next (scripted None None None)
          (newUpdateIter [Inr [IntVal 3, IntVal 3]] [''a''] 0)) = Inr [IntVal 3, IntVal 3] \<and>
   updates_in (snd (snd (updateIter_Next (scripted None None None)
          (newUpdateIter [Inr [IntVal 3, IntVal 3]] [''a''] 0)))) = [] \<and>
   updater (fst (snd (updateIter_Next (scripted None None None)
          (newUpdateIter [Inr [IntVal 3, IntVal 3]] [''a''] 0)))) = 0 \<and>
   fst (updateIter_Next ((scripted None None None)\<lparr>Equals := \<lambda>a b sch. Inl (Failure ''cmp'')\<rparr>)
          (newUpdateIter [Inr [IntVal 1, IntVal 2]] [''a''] 0)) = Inl (Failure ''cmp'') \<and>
   updates_in (snd (snd (updateIter_Next
          ((scripted None None None)\<lparr>Equals := \<lambda>a b sch. Inl (Failure ''cmp'')\<rparr>)
          (newUpdateIter [Inr [IntVal 1, IntVal 2]] [''a''] 0)))) = []"
proof -
  let ?E = "scripted None None None"
  let ?W = "scripted (Some (Failure ''w'')) None None"
  let ?X = "(scripted None None None)\<lparr>Equals := \<lambda>a b sch. Inl (Failure ''cmp'')\<rparr>"
  let ?U = "newUpdateIter [Inr [IntVal 1, IntVal 2]] [''a''] (0::nat)"
  let ?V = "newUpdateIter [Inr [IntVal 3, IntVal 3]] [''a''] (0::nat)"
  have 1: "fst (updateIter_Next ?E ?U) = Inr [IntVal 1, IntVal 2] \<and>
      updates_in (snd (snd (updateIter_Next ?E ?U))) = [([IntVal 1], [IntVal 2])] \<and>
      updater (fst (snd (updateIter_Next ?E ?U))) = 1"
    using updateIter_Next_diff [where env = ?E and u = ?U
        and oldAndNewRow = "[IntVal 1, IntVal 2]" and c' = "[]"
        and oldRow = "[IntVal 1]" and newRow = "[IntVal 2]" and N = 1 and err = EOF]
    by (simp add: scripted_def newUpdateIter_def)
  have 2: "fst (updateIter_Next ?W ?U) = Inl (Failure ''w'')"
    using updateIter_Next_diff [where env = ?W and u = ?U
        and oldAndNewRow = "[IntVal 1, IntVal 2]" and c' = "[]"
        and oldRow = "[IntVal 1]" and newRow = "[IntVal 2]" and N = 1 and err = "Failure ''w''"]
    by (simp add: scripted_def newUpdateIter_def)
  have 3: "fst (updateIter_Next ?E ?V) = Inr [IntVal 3, IntVal 3] \<and>
      updates_in (snd (snd (updateIter_Next ?E ?V))) = [] \<and>
      updater (fst (snd (updateIter_Next ?E ?V))) = 0"
    using updateIter_Next_diff [where env = ?E and u = ?V
        and oldAndNewRow = "[IntVal 3, IntVal 3]" and c' = "[]"
        and oldRow = "[IntVal 3]" and newRow = "[IntVal 3]" and N = 1 and err = EOF]
    by (simp add: scripted_def newUpdateIter_def)
  have 4: "fst (updateIter_Next ?X ?U) = Inl (Failure ''cmp'') \<and>
      updates_in (snd (snd (updateIter_Next ?X ?U))) = []"
    using updateIter_Next_diff [where env = ?X and u = ?U
        and oldAndNewRow = "[IntVal 1, IntVal 2]" and c' = "[]"
        and oldRow = "[IntVal 1]" and newRow = "[IntVal 2]" and N = 1 and err = "Failure ''cmp''"]
    by (simp add: scripted_def newUpdateIter_def)
  from 1 2 3 4 show ?thesis by blast
qed

text \<open>
  C5, amended: \<open>updateIter_Close\<close> is idempotent. On an iterator that is not yet closed
  it closes the row updater first; if that succeeds it then closes the child iterator
  and returns the child's result; if the updater's \<open>Close\<close> returns an error, that error
  is the result and the child iterator is not closed. Either way the iterator is marked
  closed, and every later call makes no call at all and returns nil.
\<close>

theorem updateIter_Close_once:
  "(closed u \<longrightarrow> updateIter_Close env u = (None, u, [])) \<and>
   (\<not> closed u \<longrightarrow> updater_Close env (updater u) = (None, upd') \<longrightarrow>
    child_Close env (childIter u) = (res, c') \<longrightarrow>
      updateIter_Close env u
        = (res, u\<lparr>closed := True, updater := upd', childIter := c'\<rparr>,
           [CallUpdaterClose, CallChildClose])) \<and>
   (\<not> closed u \<longrightarrow> updater_Close env (updater u) = (Some err, upd') \<longrightarrow>
      updateIter_Close env u
        = (Some err, u\<lparr>closed := True, updater := upd'\<rparr>, [CallUpdaterClose])) \<and>
   closed (fst (snd (updateIter_Close env u))) \<and>
   updateIter_Close env (fst (snd (updateIter_Close env u)))
     = (None, fst (snd (updateIter_Close env u)), [])"
proof -
  have a: "closed u \<longrightarrow> updateIter_Close env u = (None, u, [])"
    by (simp add: updateIter_Close_closed)
  have b: "\<not> closed u \<longrightarrow> updater_Close env (updater u) = (None, upd') \<longrightarrow>
    child_Close env (childIter u) = (res, c') \<longrightarrow>
      updateIter_Close env u
        = (res, u\<lparr>closed := True, updater := upd', childIter := c'\<rparr>,
           [CallUpdaterClose, CallChildClose])"
    by (simp add: updateIter_Close_first_ok)
  have c: "\<not> closed u \<longrightarrow> updater_Close env (updater u) = (Some err, upd') \<longrightarrow>
      updateIter_Close env u
        = (Some err, u\<lparr>closed := True, updater := upd'\<rparr>, [CallUpdaterClose])"
    by (simp add: updateIter_Close_first_error)
  have d: "closed (fst (snd (updateIter_Close env u)))"
    by (rule updateIter_Close_closes)
  have e: "updateIter_Close env (fst (snd (updateIter_Close env u)))
     = (None, fst (snd (updateIter_Close env u)), [])"
    by (rule updateIter_Close_closed [OF d])
  from a b c d e show ?thesis by blast
qed

theorem updateIter_Close_once_witness:
  "updateIter_Close (scripted None None (Some (Failure ''child'')))
      (newUpdateIter [] [''a''] 0)
     = (Some (Failure ''child''), (newUpdateIter [] [''a''] 0)\<lparr>closed := True\<rparr>,
        [CallUpdaterClose, CallChildClose]) \<and>
   updateIter_Close (scripted None (Some (Failure ''updater'')) (Some (Failure ''child'')))
      (newUpdateIter [] [''a''] 0)
     = (Some (Failure ''updater''), (newUpdateIter [] [''a''] 0)\<lparr>closed := True\<rparr>,
        [CallUpdaterClose]) \<and>
   updateIter_Close (scripted None (Some (Failure ''updater'')) (Some (Failure ''child'')))
      ((newUpdateIter [] [''a''] 0)\<lparr>closed := True\<rparr>)
     = (None, (newUpdateIter [] [''a''] 0)\<lparr>closed := True\<rparr>, [])"
proof -
  let ?U = "newUpdateIter ([] :: (error + Row) list) [''a''] (0::nat)"
  let ?E = "scripted None None (Some (Failure ''child''))"
  let ?F = "scripted None (Some (Failure ''updater'')) (Some (Failure ''child''))"
  have 1: "updateIter_Close ?E ?U
     = (Some (Failure ''child''), ?U\<lparr>closed := True\<rparr>, [CallUpdaterClose, CallChildClose])"
    using updateIter_Close_once [where env = ?E and u = ?U and upd' = 0
        and res = "Some (Failure ''child'')" and c' = "[]" and err = EOF]
    by (simp add: scripted_def newUpdateIter_def)
  have 2: "updateIter_Close ?F ?U
     = (Some (Failure ''updater''), ?U\<lparr>closed := True\<rparr>, [CallUpdaterClose])"
    using updateIter_Close_once [where env = ?F and u = ?U and upd' = 0
        and res = None and c' = "[]" and err = "Failure ''updater''"]
    by (simp add: scripted_def newUpdateIter_def)
  have 3: "updateIter_Close ?F (?U\<lparr>closed := True\<rparr>) = (None, ?U\<lparr>closed := True\<rparr>, [])"
    using updateIter_Close_once [where env = ?F and u = "?U\<lparr>closed := True\<rparr>" and upd' = 0
        and res = None and c' = "[]" and err = EOF]
    by (simp add: scripted_def newUpdateIter_def)
  from 1 2 3 show ?thesis by blast
qed

text \<open>
  The first call does not always close the child iterator: when the updater's \<open>Close\<close>
  fails, the only call made is the updater's.
\<close>

theorem updateIter_Close_child_left_open_counterexample:
  "\<not> (\<forall>(env :: ((error + Row) list, nat) collaborators) u.
        \<not> closed u \<longrightarrow> CallChildClose \<in> set (snd (snd (updateIter_Close env u))))"
proof
  assume h: "\<forall>(env :: ((error + Row) list, nat) collaborators) u.
        \<not> closed u \<longrightarrow> CallChildClose \<in> set (snd (snd (updateIter_Close env u)))"
  let ?U = "newUpdateIter ([] :: (error + Row) list) [''a''] (0::nat)"
  let ?F = "scripted None (Some (Failure ''updater'')) (Some (Failure ''child''))"
  have "\<not> closed ?U" by (simp add: newUpdateIter_def)
  with h have "CallChildClose \<in> set (snd (snd (updateIter_Close ?F ?U)))" by blast
  moreover have "snd (snd (updateIter_Close ?F ?U)) = [CallUpdaterClose]"
    by (simp add: updateIter_Close_def Let_def scripted_def newUpdateIter_def)
  ultimately show False by simp
qed
section \<open>Tracing row iterator: the claim\<close>

text \<open>
  C9: for a span whose tracer is the no-op tracer, \<open>NewSpanIter\<close> returns the given
  iterator itself; for any other tracer it returns a fresh \<open>SpanIter\<close> holding the span
  and the given iterator, with its counters at zero, which is not the given iterator.
\<close>

theorem NewSpanIter_elides_noop:
  "(Tracer sp = NoopTracer \<longrightarrow> NewSpanIter sp it = it) \<and>
   (Tracer sp \<noteq> NoopTracer \<longrightarrow>
      NewSpanIter sp it = SpanIter sp it 0 0 0 0 False \<and>
      span (NewSpanIter sp it) = sp \<and> iter (NewSpanIter sp it) = it \<and>
      NewSpanIter sp it \<noteq> it)"
  by (simp add: NewSpanIter_def SpanIter_neq_inner)

theorem NewSpanIter_elides_noop_witness:
  "NewSpanIter \<lparr>Tracer = NoopTracer, operationName = ''plan.Update''\<rparr> (OtherIter [Inr [IntVal 1]])
     = OtherIter [Inr [IntVal 1]] \<and>
   NewSpanIter \<lparr>Tracer = OtherTracer ''jaeger'', operationName = ''plan.Update''\<rparr>
       (OtherIter [Inr [IntVal 1]])
     = SpanIter \<lparr>Tracer = OtherTracer ''jaeger'', operationName = ''plan.Update''\<rparr>
         (OtherIter [Inr [IntVal 1]]) 0 0 0 0 False"
proof -
  have 1: "NewSpanIter \<lparr>Tracer = NoopTracer, operationName = ''plan.Update''\<rparr>
      (OtherIter [Inr [IntVal 1]]) = OtherIter [Inr [IntVal 1]]"
    using NewSpanIter_elides_noop [where sp = "\<lparr>Tracer = NoopTracer, operationName = ''plan.Update''\<rparr>"
        and it = "OtherIter [Inr [IntVal 1]]"]
    by simp
  have 2: "NewSpanIter \<lparr>Tracer = OtherTracer ''jaeger'', operationName = ''plan.Update''\<rparr>
       (OtherIter [Inr [IntVal 1]])
     = SpanIter \<lparr>Tracer = OtherTracer ''jaeger'', operationName = ''plan.Update''\<rparr>
         (OtherIter [Inr [IntVal 1]]) 0 0 0 0 False"
    using NewSpanIter_elides_noop [where sp = "\<lparr>Tracer = OtherTracer ''jaeger'', operationName = ''plan.Update''\<rparr>"
        and it = "OtherIter [Inr [IntVal 1]]"]
    by simp
  from 1 2 show ?thesis by blast
qed

end
